theory Spec2Isabelle
  imports Main "HOL-Library.Sublist" "HOL-Library.Char_ord" "HOL-Library.List_Lexorder"
begin

section \<open>Okta to ClickUp group synchronisation\<close>

text \<open>
  A shallow embedding of \<^verbatim>\<open>okta_to_clickup_group_sync.py\<close>. The script fetches the
  Okta groups and their members, the ClickUp users and the ClickUp groups, matches Okta
  members to ClickUp users by email and sends one create or update request per group.

  The answers to the four kinds of GET request are inputs of the model (record
  \<open>fetched\<close>). The two mutating requests (POST to create a group, PUT to update its
  members) go through a parameter \<open>send\<close> that threads the state of the outside world
  and either raises or answers. What the script writes to its log is kept as a trace of
  events.
\<close>

subsection \<open>Python dictionaries\<close>

text \<open>
  A dictionary is an association list in insertion order. \<open>d[k] = v\<close> replaces the value
  of a key that is present, where it stands, and appends a new key at the end.
\<close>

type_synonym ('k, 'v) dict = "('k \<times> 'v) list"

definition dict_keys :: "('k, 'v) dict \<Rightarrow> 'k list" where
  "dict_keys d = map fst d"

fun dict_set :: "('k, 'v) dict \<Rightarrow> 'k \<Rightarrow> 'v \<Rightarrow> ('k, 'v) dict" where
  "dict_set [] k v = [(k, v)]"
| "dict_set ((k', v') # d) k v =
     (if k' = k then (k, v) # d else (k', v') # dict_set d k v)"

text \<open>\<open>d[k].append(x)\<close>, for a key whose value is a list; a missing key raises KeyError
  in Python, and the callers below only append to a key they have just made sure of.\<close>

fun dict_append :: "('k, 'v list) dict \<Rightarrow> 'k \<Rightarrow> 'v \<Rightarrow> ('k, 'v list) dict" where
  "dict_append [] k x = []"
| "dict_append ((k', v') # d) k x =
     (if k' = k then (k', v' @ [x]) # d else (k', v') # dict_append d k x)"

subsection \<open>Configuration and fetched data\<close>

record config =
  DRY_RUN :: bool
  DEBUG :: bool
  OKTA_GROUP_PREFIXES :: "string list"
  EMAIL_DOMAIN :: string

text \<open>\<open>name.startswith(tuple(OKTA_GROUP_PREFIXES))\<close>\<close>

definition startswith :: "string \<Rightarrow> string list \<Rightarrow> bool" where
  "startswith name ps = list_ex (\<lambda>p. prefix p name) ps"

type_synonym user_id = int
type_synonym group_id = string

text \<open>An Okta group of the \<open>/groups\<close> answer: \<open>g["id"]\<close> and \<open>g["profile"]["name"]\<close>.\<close>

record okta_group =
  okta_id :: string
  okta_name :: string

text \<open>A member of the ClickUp team: \<open>u["user"]["id"]\<close> and \<open>u["user"]["email"]\<close>.\<close>

record clickup_user =
  user_id :: user_id
  user_email :: string

text \<open>A group of the ClickUp \<open>/group\<close> answer: its name, its id and the ids of its
  members (\<open>[member["id"] for member in group["members"]]\<close>).\<close>

record clickup_group =
  g_name :: string
  g_id :: group_id
  g_members :: "user_id list"

text \<open>The value stored per name by \<open>get_clickup_groups\<close>: \<open>{"id": ..., "members": ...}\<close>.\<close>

record properties =
  id' :: group_id
  members :: "user_id list"

text \<open>The answers to the GET requests of one run: the Okta groups, per Okta group id the
  emails of its users (\<open>user["profile"]["email"]\<close>), the ClickUp team members and the
  ClickUp groups.\<close>

record fetched =
  okta_groups_json :: "okta_group list"
  okta_users_json :: "string \<Rightarrow> string list"
  clickup_users_json :: "clickup_user list"
  clickup_groups_json :: "clickup_group list"

subsection \<open>Reading the two systems\<close>

fun get_okta_groups_loop ::
  "config \<Rightarrow> (string \<Rightarrow> string list) \<Rightarrow> okta_group list \<Rightarrow> (string, string list) dict
    \<Rightarrow> (string, string list) dict" where
  "get_okta_groups_loop cfg users [] group_members = group_members"
| "get_okta_groups_loop cfg users (g # gs) group_members =
     (if \<not> startswith (okta_name g) (OKTA_GROUP_PREFIXES cfg)
      then get_okta_groups_loop cfg users gs group_members
      else
        let group_members = dict_set group_members (okta_name g) [];
            data = users (okta_id g);
            group_members = dict_set group_members (okta_name g)
              (filter (\<lambda>email. suffix (EMAIL_DOMAIN cfg) email) data)
        in get_okta_groups_loop cfg users gs group_members)"

definition get_okta_groups :: "config \<Rightarrow> fetched \<Rightarrow> (string, string list) dict" where
  "get_okta_groups cfg f =
     get_okta_groups_loop cfg (okta_users_json f) (okta_groups_json f) []"

definition get_clickup_users :: "fetched \<Rightarrow> clickup_user list" where
  "get_clickup_users f = clickup_users_json f"

text \<open>In \<open>get_clickup_groups\<close> the placeholder \<open>[]\<close> stored for a new name is overwritten
  by the next statement; storing the properties once puts the name at the same place.\<close>

fun get_clickup_groups_loop ::
  "config \<Rightarrow> clickup_group list \<Rightarrow> (string, properties) dict \<Rightarrow> (string, properties) dict" where
  "get_clickup_groups_loop cfg [] clickup_groups = clickup_groups"
| "get_clickup_groups_loop cfg (g # gs) clickup_groups =
     (if startswith (g_name g) (OKTA_GROUP_PREFIXES cfg)
      then get_clickup_groups_loop cfg gs
             (dict_set clickup_groups (g_name g)
                \<lparr>id' = g_id g, members = g_members g\<rparr>)
      else get_clickup_groups_loop cfg gs clickup_groups)"

definition get_clickup_groups :: "config \<Rightarrow> fetched \<Rightarrow> (string, properties) dict" where
  "get_clickup_groups cfg f = get_clickup_groups_loop cfg (clickup_groups_json f) []"

subsection \<open>Matching Okta members to ClickUp users\<close>

text \<open>The three nested loops of \<open>match_users\<close>, innermost first.\<close>

fun match_user_loop ::
  "string \<Rightarrow> string \<Rightarrow> clickup_user list \<Rightarrow> (string, user_id list) dict
    \<Rightarrow> (string, user_id list) dict" where
  "match_user_loop group' email [] group_members = group_members"
| "match_user_loop group' email (user # users) group_members =
     (if user_email user = email
      then
        let group_members =
              (if group' \<notin> set (dict_keys group_members)
               then dict_set group_members group' [] else group_members)
        in match_user_loop group' email users (dict_append group_members group' (user_id user))
      else match_user_loop group' email users group_members)"

fun match_email_loop ::
  "string \<Rightarrow> string list \<Rightarrow> clickup_user list \<Rightarrow> (string, user_id list) dict
    \<Rightarrow> (string, user_id list) dict" where
  "match_email_loop group' [] clickup group_members = group_members"
| "match_email_loop group' (email # emails) clickup group_members =
     match_email_loop group' emails clickup (match_user_loop group' email clickup group_members)"

fun match_group_loop ::
  "(string, string list) dict \<Rightarrow> clickup_user list \<Rightarrow> (string, user_id list) dict
    \<Rightarrow> (string, user_id list) dict" where
  "match_group_loop [] clickup group_members = group_members"
| "match_group_loop ((group', emails) # okta) clickup group_members =
     match_group_loop okta clickup (match_email_loop group' emails clickup group_members)"

definition match_users :: "config \<Rightarrow> fetched \<Rightarrow> (string, user_id list) dict" where
  "match_users cfg f =
     (let okta = get_okta_groups cfg f;
          clickup = get_clickup_users f
      in match_group_loop okta clickup [])"

subsection \<open>Synchronising\<close>

text \<open>
  What the script decides to do to one group. \<open>CreateGroup name members\<close> is the POST to
  \<open>/team/<team>/group\<close> with the payload \<open>{"name": name, "members": members}\<close>;
  \<open>UpdateGroup gid name add rem\<close> is the PUT to \<open>/group/<gid>\<close> with the payload
  \<open>{"members": {"add": add, "rem": rem}}\<close>, where a key is left out when its list is empty.
  \<open>add\<close> and \<open>rem\<close> are \<open>list(set(...) - set(...))\<close>, lists without duplicates in an
  order that Python does not fix: they are sets here.
\<close>

datatype intent =
  CreateGroup string "user_id list"
| UpdateGroup group_id string "user_id set" "user_id set"

fun intent_name :: "intent \<Rightarrow> string" where
  "intent_name (CreateGroup name ms) = name"
| "intent_name (UpdateGroup gid name add rem) = name"

fun intent_gid :: "intent \<Rightarrow> group_id option" where
  "intent_gid (CreateGroup name ms) = None"
| "intent_gid (UpdateGroup gid name add rem) = Some gid"

text \<open>The answer to a mutating request: its status code, and whether its body parses as
  JSON (\<open>response.json()\<close> raises when it does not).\<close>

record response =
  status_code :: nat
  json_ok :: bool

datatype error = RequestException | JSONDecodeError

text \<open>The lines written to the log that matter here: the announcement of a create or
  update with its payload, the answer logged by \<open>log_response\<close>, the dry-run notice and
  the notice that a group needs no change.\<close>

datatype event =
  Log_intent intent
| Log_response intent response
| Log_dry_run intent
| Log_no_changes string

text \<open>The state of a run: the outside world, the log so far, the mutating requests
  issued so far (in the order of the calls to \<open>requests.post\<close> and \<open>requests.put\<close>), and
  the exception that ended the run, if any. Nothing in the script catches an exception.\<close>

record 'w state =
  world :: 'w
  trace :: "event list"
  sent :: "intent list"
  raised :: "error option"

type_synonym 'w send = "'w \<Rightarrow> intent \<Rightarrow> 'w \<times> (error + response)"

definition log_event :: "event \<Rightarrow> 'w state \<Rightarrow> 'w state" where
  "log_event e s = s\<lparr>trace := trace s @ [e]\<rparr>"

text \<open>\<open>log_response\<close> writes the URL, the method and the status code, then with \<open>DEBUG\<close>
  dumps \<open>response.json()\<close>.\<close>

definition log_response :: "config \<Rightarrow> intent \<Rightarrow> response \<Rightarrow> 'w state \<Rightarrow> 'w state" where
  "log_response cfg i r s =
     (let s = log_event (Log_response i r) s
      in if DEBUG cfg \<and> \<not> json_ok r then s\<lparr>raised := Some JSONDecodeError\<rparr> else s)"

text \<open>The \<open>if not DRY_RUN: ... else: ...\<close> that follows the announcement of an intent.\<close>

definition perform :: "config \<Rightarrow> 'w send \<Rightarrow> intent \<Rightarrow> 'w state \<Rightarrow> 'w state" where
  "perform cfg send i s =
     (if \<not> DRY_RUN cfg then
        (let s = s\<lparr>sent := sent s @ [i]\<rparr>
         in case send (world s) i of
              (w, Inl e) \<Rightarrow> s\<lparr>world := w, raised := Some e\<rparr>
            | (w, Inr r) \<Rightarrow> log_response cfg i r (s\<lparr>world := w\<rparr>))
      else log_event (Log_dry_run i) s)"

text \<open>The first half of the body of the main loop: create the group when ClickUp has none
  of that name.\<close>

definition create_step ::
  "config \<Rightarrow> 'w send \<Rightarrow> (string, properties) dict \<Rightarrow> string \<Rightarrow> user_id list
    \<Rightarrow> 'w state \<Rightarrow> 'w state" where
  "create_step cfg send clickup_groups okta_group okta_members s =
     (if okta_group \<notin> set (dict_keys clickup_groups)
      then perform cfg send (CreateGroup okta_group okta_members)
             (log_event (Log_intent (CreateGroup okta_group okta_members)) s)
      else s)"

text \<open>The body of the inner loop for a ClickUp group of the same name.\<close>

definition update_step ::
  "config \<Rightarrow> 'w send \<Rightarrow> user_id list \<Rightarrow> string \<Rightarrow> properties \<Rightarrow> 'w state \<Rightarrow> 'w state" where
  "update_step cfg send okta_members clickup_group props s =
     (let add = set okta_members - set (members props);
          rem = set (members props) - set okta_members
      in if add \<noteq> {} \<or> rem \<noteq> {}
         then perform cfg send (UpdateGroup (id' props) clickup_group add rem)
                (log_event (Log_intent (UpdateGroup (id' props) clickup_group add rem)) s)
         else log_event (Log_no_changes clickup_group) s)"

fun update_loop ::
  "config \<Rightarrow> 'w send \<Rightarrow> string \<Rightarrow> user_id list \<Rightarrow> (string, properties) dict
    \<Rightarrow> 'w state \<Rightarrow> 'w state" where
  "update_loop cfg send okta_group okta_members [] s = s"
| "update_loop cfg send okta_group okta_members ((clickup_group, props) # rest) s =
     (let s' = (if okta_group = clickup_group
                then update_step cfg send okta_members clickup_group props s else s)
      in if raised s' \<noteq> None then s'
         else update_loop cfg send okta_group okta_members rest s')"

fun sync_groups_loop ::
  "config \<Rightarrow> 'w send \<Rightarrow> (string, properties) dict \<Rightarrow> (string, user_id list) dict
    \<Rightarrow> 'w state \<Rightarrow> 'w state" where
  "sync_groups_loop cfg send clickup_groups [] s = s"
| "sync_groups_loop cfg send clickup_groups ((okta_group, okta_members) # okta_groups) s =
     (let s1 = create_step cfg send clickup_groups okta_group okta_members s
      in if raised s1 \<noteq> None then s1
         else
           let s2 = update_loop cfg send okta_group okta_members clickup_groups s1
           in if raised s2 \<noteq> None then s2
              else sync_groups_loop cfg send clickup_groups okta_groups s2)"

definition start :: "'w \<Rightarrow> 'w state" where
  "start w = \<lparr>world = w, trace = [], sent = [], raised = None\<rparr>"

definition sync_groups :: "config \<Rightarrow> fetched \<Rightarrow> 'w send \<Rightarrow> 'w \<Rightarrow> 'w state" where
  "sync_groups cfg f send w =
     (let okta_groups = match_users cfg f;
          clickup_groups = get_clickup_groups cfg f
      in sync_groups_loop cfg send clickup_groups okta_groups (start w))"

subsection \<open>Reading a trace\<close>

text \<open>The intents a run announced, and the intents it sent with their answers.\<close>

fun emitted :: "event list \<Rightarrow> intent list" where
  "emitted [] = []"
| "emitted (Log_intent i # es) = i # emitted es"
| "emitted (e # es) = emitted es"

fun answered :: "event list \<Rightarrow> (intent \<times> response) list" where
  "answered [] = []"
| "answered (Log_response i r # es) = (i, r) # answered es"
| "answered (e # es) = answered es"

subsection \<open>The intents of a run, without the effects\<close>

text \<open>What the body of the inner loop announces for one ClickUp group, what the body of
  the main loop announces for one Okta group, and what a whole run announces when no
  exception ends it early.\<close>

definition update_intents :: "string \<Rightarrow> user_id list \<Rightarrow> string \<times> properties \<Rightarrow> intent list" where
  "update_intents okta_group okta_members item =
     (case item of (clickup_group, props) \<Rightarrow>
        if okta_group = clickup_group then
          (let add = set okta_members - set (members props);
               rem = set (members props) - set okta_members
           in if add \<noteq> {} \<or> rem \<noteq> {}
              then [UpdateGroup (id' props) clickup_group add rem] else [])
        else [])"

definition group_intents ::
  "(string, properties) dict \<Rightarrow> string \<times> user_id list \<Rightarrow> intent list" where
  "group_intents clickup_groups item =
     (case item of (okta_group, okta_members) \<Rightarrow>
        (if okta_group \<notin> set (dict_keys clickup_groups)
         then [CreateGroup okta_group okta_members] else [])
        @ concat (map (update_intents okta_group okta_members) clickup_groups))"

definition diff :: "(string, user_id list) dict \<Rightarrow> (string, properties) dict \<Rightarrow> intent list" where
  "diff okta_groups clickup_groups = concat (map (group_intents clickup_groups) okta_groups)"

text \<open>How a later state of a run extends an earlier one: the intents announced in
  between, which are also the requests issued in between unless the run is a dry run.\<close>

definition grows :: "config \<Rightarrow> 'w state \<Rightarrow> 'w state \<Rightarrow> intent list \<Rightarrow> bool" where
  "grows cfg s r ys \<longleftrightarrow>
     emitted (trace r) = emitted (trace s) @ ys \<and>
     sent r = sent s @ (if DRY_RUN cfg then [] else ys)"

subsection \<open>Example settings\<close>

text \<open>The settings the script ships with (\<open>DRY_RUN = False\<close>, \<open>DEBUG = True\<close>), the same
  with the dry run switched on, a target system that answers every request with status
  200 and a JSON body, and one whose every request raises. The world of both counts the
  requests it has received.\<close>

definition live :: config where
  "live = \<lparr>DRY_RUN = False, DEBUG = True, OKTA_GROUP_PREFIXES = [''eng''],
            EMAIL_DOMAIN = ''@co.com''\<rparr>"

definition dry :: config where
  "dry = live\<lparr>DRY_RUN := True\<rparr>"

definition answering :: "nat send" where
  "answering w i = (Suc w, Inr \<lparr>status_code = 200, json_ok = True\<rparr>)"

definition failing :: "nat send" where
  "failing w i = (Suc w, Inl RequestException)"

text \<open>A later state that differs from an earlier one in the log only, and not by a
  logged answer.\<close>

definition unchanged :: "'w state \<Rightarrow> 'w state \<Rightarrow> bool" where
  "unchanged s r \<longleftrightarrow>
     world r = world s \<and> sent r = sent s \<and> raised r = raised s \<and>
     answered (trace r) = answered (trace s)"

subsection \<open>Example data\<close>

text \<open>Four Okta groups, of which \<open>ops\<close> does not carry the prefix; \<open>x@other.com\<close> is
  outside the email domain, \<open>z@co.com\<close> is no ClickUp user, and two ClickUp users share
  the address \<open>b@co.com\<close>. ClickUp has the group \<open>eng-a\<close> with the members 1 and 2.\<close>

definition snapshot :: fetched where
  "snapshot =
     \<lparr>okta_groups_json =
        [\<lparr>okta_id = ''1'', okta_name = ''eng-b''\<rparr>, \<lparr>okta_id = ''2'', okta_name = ''eng-a''\<rparr>,
         \<lparr>okta_id = ''3'', okta_name = ''ops''\<rparr>, \<lparr>okta_id = ''4'', okta_name = ''eng-c''\<rparr>],
      okta_users_json =
        (\<lambda>i. if i = ''1'' then [''a@co.com'', ''b@co.com'', ''x@other.com'']
             else if i = ''2'' then [''b@co.com''] else [''z@co.com'']),
      clickup_users_json =
        [\<lparr>user_id = 1, user_email = ''a@co.com''\<rparr>, \<lparr>user_id = 2, user_email = ''b@co.com''\<rparr>,
         \<lparr>user_id = 3, user_email = ''b@co.com''\<rparr>],
      clickup_groups_json = [\<lparr>g_name = ''eng-a'', g_id = ''ga'', g_members = [1, 2]\<rparr>]\<rparr>"

text \<open>An Okta group \<open>eng-a\<close> that has lost all its members, while the ClickUp group of
  that name still has the members 1 and 2.\<close>

definition emptied :: fetched where
  "emptied =
     \<lparr>okta_groups_json = [\<lparr>okta_id = ''2'', okta_name = ''eng-a''\<rparr>],
      okta_users_json = (\<lambda>i. []),
      clickup_users_json =
        [\<lparr>user_id = 1, user_email = ''a@co.com''\<rparr>, \<lparr>user_id = 2, user_email = ''b@co.com''\<rparr>],
      clickup_groups_json = [\<lparr>g_name = ''eng-a'', g_id = ''ga'', g_members = [1, 2]\<rparr>]\<rparr>"

subsection \<open>Matching, in closed form\<close>

text \<open>The ids of the ClickUp users that carry a given email, in the order of the ClickUp
  answer; and what the body of the innermost loop of \<open>match_users\<close> does to the
  dictionary for each of a list of ids.\<close>

definition matches :: "string \<Rightarrow> clickup_user list \<Rightarrow> user_id list" where
  "matches email clickup = map user_id (filter (\<lambda>user. user_email user = email) clickup)"

fun dict_extend ::
  "(string, user_id list) dict \<Rightarrow> string \<Rightarrow> user_id list \<Rightarrow> (string, user_id list) dict" where
  "dict_extend group_members group' [] = group_members"
| "dict_extend group_members group' (x # xs) =
     dict_extend
       (dict_append
          (if group' \<notin> set (dict_keys group_members)
           then dict_set group_members group' [] else group_members) group' x)
       group' xs"

subsection \<open>Runs without exceptions\<close>

text \<open>What the target system answers when the intents of a list are sent to it one after
  another, starting from a given world: each intent with the answer to it, up to the
  first request that raises. And the world after these requests.\<close>

fun replies :: "'w send \<Rightarrow> 'w \<Rightarrow> intent list \<Rightarrow> (intent \<times> response) list" where
  "replies send w [] = []"
| "replies send w (i # js) =
     (case send w i of
        (w', Inl e) \<Rightarrow> []
      | (w', Inr r) \<Rightarrow> (i, r) # replies send w' js)"

fun after :: "'w send \<Rightarrow> 'w \<Rightarrow> intent list \<Rightarrow> 'w" where
  "after send w [] = w"
| "after send w (i # js) = after send (fst (send w i)) js"

text \<open>A later state of a run in which no exception is pending, the answers logged since
  an earlier state are the answers of the target system to the given intents, in order,
  and the world is the one these requests leave.\<close>

definition proceeds :: "'w send \<Rightarrow> 'w state \<Rightarrow> 'w state \<Rightarrow> intent list \<Rightarrow> bool" where
  "proceeds send s r ys \<longleftrightarrow>
     raised r = None \<and>
     answered (trace r) = answered (trace s) @ replies send (world s) ys \<and>
     world r = after send (world s) ys"

text \<open>What the caller of \<open>sync_groups\<close> gets. The function has no \<open>return\<close> statement:
  it returns \<open>None\<close>, unless an exception propagates to the caller.\<close>

datatype result = Returns_None | Raises error

definition returned :: "'w state \<Rightarrow> result" where
  "returned s = (case raised s of None \<Rightarrow> Returns_None | Some e \<Rightarrow> Raises e)"

text \<open>A target system that refuses every request with status 500 and a JSON body.\<close>

definition refusing :: "nat send" where
  "refusing w i = (Suc w, Inr \<lparr>status_code = 500, json_ok = True\<rparr>)"

subsection \<open>Applying intents to a snapshot of the ClickUp groups\<close>

text \<open>
  Modelled from the spec: what the target system does with a request is not part of the
  script, which only sends it. Following the idempotence property of the specification,
  applying a CreateGroup adds the group with its member list, under an id that the
  target system chooses (\<open>fresh\<close>), and applying an UpdateGroup removes the ids to remove
  from, and adds the ids to add to, the members of its group: the entry with the name
  and the id of the intent.
\<close>

fun apply_intent ::
  "(string \<Rightarrow> group_id) \<Rightarrow> intent \<Rightarrow> (string, properties) dict \<Rightarrow> (string, properties) dict" where
  "apply_intent fresh (CreateGroup name ms) existing =
     dict_set existing name \<lparr>id' = fresh name, members = ms\<rparr>"
| "apply_intent fresh (UpdateGroup gid name add rem) existing =
     map (\<lambda>(k, p).
            if k = name \<and> id' p = gid
            then (k, p\<lparr>members := filter (\<lambda>m. m \<notin> rem) (members p) @ sorted_list_of_set add\<rparr>)
            else (k, p))
       existing"

definition apply_intents ::
  "(string \<Rightarrow> group_id) \<Rightarrow> intent list \<Rightarrow> (string, properties) dict \<Rightarrow> (string, properties) dict" where
  "apply_intents fresh intents existing = fold (apply_intent fresh) intents existing"

text \<open>A desired group that the snapshot already matches: the name is present and its
  members are the desired ones, as sets.\<close>

definition settled :: "(string, properties) dict \<Rightarrow> string \<times> user_id list \<Rightarrow> bool" where
  "settled existing item =
     (case map_of existing (fst item) of
        None \<Rightarrow> False
      | Some p \<Rightarrow> set (members p) = set (snd item))"

section \<open>Properties\<close>

subsection \<open>Announced intents and issued requests\<close>

lemma emitted_append: "emitted (xs @ ys) = emitted xs @ emitted ys"
  by (induction xs rule: emitted.induct) simp_all

lemma answered_append: "answered (xs @ ys) = answered xs @ answered ys"
  by (induction xs rule: answered.induct) simp_all

lemma emitted_perform: "emitted (trace (perform cfg send i s)) = emitted (trace s)"
  by (simp add: perform_def log_response_def log_event_def emitted_append Let_def
      split: prod.splits sum.splits)

lemma sent_perform:
  "sent (perform cfg send i s) = sent s @ (if DRY_RUN cfg then [] else [i])"
  by (simp add: perform_def log_response_def log_event_def Let_def
      split: prod.splits sum.splits)

lemma emitted_create_step:
  "emitted (trace (create_step cfg send cgs n ms s)) =
     emitted (trace s) @ (if n \<notin> set (dict_keys cgs) then [CreateGroup n ms] else [])"
  by (simp add: create_step_def emitted_perform log_event_def emitted_append)

lemma sent_create_step:
  "sent (create_step cfg send cgs n ms s) =
     sent s @ (if DRY_RUN cfg then []
               else if n \<notin> set (dict_keys cgs) then [CreateGroup n ms] else [])"
  by (simp add: create_step_def sent_perform log_event_def)

lemma emitted_update_step:
  "emitted (trace (update_step cfg send ms n p s)) =
     emitted (trace s) @ update_intents n ms (n, p)"
  by (simp add: update_step_def update_intents_def emitted_perform log_event_def
      emitted_append Let_def)

lemma sent_update_step:
  "sent (update_step cfg send ms n p s) =
     sent s @ (if DRY_RUN cfg then [] else update_intents n ms (n, p))"
  by (simp add: update_step_def update_intents_def sent_perform log_event_def Let_def)

lemma grows_refl: "grows cfg s s []"
  by (simp add: grows_def)

lemma grows_trans: "grows cfg s r ys \<Longrightarrow> grows cfg r t zs \<Longrightarrow> grows cfg s t (ys @ zs)"
  by (simp add: grows_def)

lemma update_loop_run:
  "\<exists>ys. prefix ys (concat (map (update_intents n ms) items)) \<and>
        (raised (update_loop cfg send n ms items s) = None \<longrightarrow>
           ys = concat (map (update_intents n ms) items)) \<and>
        grows cfg s (update_loop cfg send n ms items s) ys"
proof (induction items arbitrary: s)
  case Nil
  show ?case by (simp add: grows_refl)
next
  case (Cons item items)
  obtain cg p where item: "item = (cg, p)" by (cases item)
  define s' where "s' = (if n = cg then update_step cfg send ms cg p s else s)"
  define h where "h = update_intents n ms item"
  define t where "t = concat (map (update_intents n ms) items)"
  have full: "concat (map (update_intents n ms) (item # items)) = h @ t"
    by (simp add: h_def t_def)
  have head: "grows cfg s s' h"
  proof (cases "n = cg")
    case True
    then show ?thesis
      by (simp add: s'_def h_def item grows_def emitted_update_step sent_update_step)
  next
    case False
    then show ?thesis
      by (simp add: s'_def h_def item grows_def update_intents_def)
  qed
  show ?case
  proof (cases "raised s' = None")
    case False
    then have eq: "update_loop cfg send n ms (item # items) s = s'"
      by (simp add: item s'_def Let_def)
    have "prefix h (h @ t) \<and> (raised s' = None \<longrightarrow> h = h @ t) \<and> grows cfg s s' h"
      using False head by auto
    then show ?thesis
      unfolding full eq by (rule exI [where x = h])
  next
    case True
    then have eq: "update_loop cfg send n ms (item # items) s = update_loop cfg send n ms items s'"
      by (simp add: item s'_def Let_def)
    have "\<exists>ys. prefix ys t \<and>
        (raised (update_loop cfg send n ms items s') = None \<longrightarrow> ys = t) \<and>
        grows cfg s' (update_loop cfg send n ms items s') ys"
      unfolding t_def by (rule Cons.IH)
    then obtain ys where c3: "prefix ys t \<and>
        (raised (update_loop cfg send n ms items s') = None \<longrightarrow> ys = t) \<and>
        grows cfg s' (update_loop cfg send n ms items s') ys" ..
    then have ys: "prefix ys t"
        "raised (update_loop cfg send n ms items s') = None \<longrightarrow> ys = t"
        "grows cfg s' (update_loop cfg send n ms items s') ys"
      by simp_all
    have "grows cfg s (update_loop cfg send n ms items s') (h @ ys)"
      by (rule grows_trans [OF head ys(3)])
    then have "prefix (h @ ys) (h @ t) \<and>
        (raised (update_loop cfg send n ms items s') = None \<longrightarrow> h @ ys = h @ t) \<and>
        grows cfg s (update_loop cfg send n ms items s') (h @ ys)"
      using ys(1,2) by simp
    then show ?thesis
      unfolding full eq by (rule exI [where x = "h @ ys"])
  qed
qed

lemma sync_groups_loop_run:
  "\<exists>ys. prefix ys (diff ogs cgs) \<and>
        (raised (sync_groups_loop cfg send cgs ogs s) = None \<longrightarrow> ys = diff ogs cgs) \<and>
        grows cfg s (sync_groups_loop cfg send cgs ogs s) ys"
proof (induction ogs arbitrary: s)
  case Nil
  show ?case by (simp add: grows_refl diff_def)
next
  case (Cons item ogs)
  obtain n ms where item: "item = (n, ms)" by (cases item)
  define c where "c = (if n \<notin> set (dict_keys cgs) then [CreateGroup n ms] else [])"
  define u where "u = concat (map (update_intents n ms) cgs)"
  define t where "t = diff ogs cgs"
  define s1 where "s1 = create_step cfg send cgs n ms s"
  define s2 where "s2 = update_loop cfg send n ms cgs s1"
  have d: "diff (item # ogs) cgs = c @ u @ t"
    by (simp add: diff_def group_intents_def item c_def u_def t_def)
  have g1: "grows cfg s s1 c"
    by (simp add: grows_def s1_def c_def emitted_create_step sent_create_step)
  have "\<exists>ys. prefix ys u \<and> (raised s2 = None \<longrightarrow> ys = u) \<and> grows cfg s1 s2 ys"
    unfolding u_def s2_def by (rule update_loop_run)
  then obtain ys where "prefix ys u \<and> (raised s2 = None \<longrightarrow> ys = u) \<and> grows cfg s1 s2 ys" ..
  then have ys: "prefix ys u" "raised s2 = None \<longrightarrow> ys = u" "grows cfg s1 s2 ys"
    by simp_all
  have g2: "grows cfg s s2 (c @ ys)"
    by (rule grows_trans [OF g1 ys(3)])
  show ?case
  proof (cases "raised s1 = None")
    case False
    then have eq: "sync_groups_loop cfg send cgs (item # ogs) s = s1"
      by (simp add: item s1_def Let_def)
    have "prefix c (c @ u @ t) \<and> (raised s1 = None \<longrightarrow> c = c @ u @ t) \<and> grows cfg s s1 c"
      using False g1 by auto
    then show ?thesis
      unfolding d eq by (rule exI [where x = c])
  next
    case r1: True
    show ?thesis
    proof (cases "raised s2 = None")
      case False
      then have eq: "sync_groups_loop cfg send cgs (item # ogs) s = s2"
        using r1 by (simp add: item s1_def s2_def Let_def)
      have "prefix ys (u @ t)" using ys(1) by (rule prefix_prefix)
      then have "prefix (c @ ys) (c @ u @ t) \<and> (raised s2 = None \<longrightarrow> c @ ys = c @ u @ t) \<and>
          grows cfg s s2 (c @ ys)"
        using False g2 by auto
      then show ?thesis
        unfolding d eq by (rule exI [where x = "c @ ys"])
    next
      case True
      then have eq: "sync_groups_loop cfg send cgs (item # ogs) s
          = sync_groups_loop cfg send cgs ogs s2"
        using r1 by (simp add: item s1_def s2_def Let_def)
      have "\<exists>zs. prefix zs t \<and>
          (raised (sync_groups_loop cfg send cgs ogs s2) = None \<longrightarrow> zs = t) \<and>
          grows cfg s2 (sync_groups_loop cfg send cgs ogs s2) zs"
        unfolding t_def by (rule Cons.IH)
      then obtain zs where "prefix zs t \<and>
          (raised (sync_groups_loop cfg send cgs ogs s2) = None \<longrightarrow> zs = t) \<and>
          grows cfg s2 (sync_groups_loop cfg send cgs ogs s2) zs" ..
      then have zs: "prefix zs t"
          "raised (sync_groups_loop cfg send cgs ogs s2) = None \<longrightarrow> zs = t"
          "grows cfg s2 (sync_groups_loop cfg send cgs ogs s2) zs"
        by simp_all
      from True ys have yu: "ys = u" by simp
      have "grows cfg s (sync_groups_loop cfg send cgs ogs s2) (c @ u @ zs)"
        using grows_trans [OF g2 zs(3)] by (simp add: yu)
      then have "prefix (c @ u @ zs) (c @ u @ t) \<and>
          (raised (sync_groups_loop cfg send cgs ogs s2) = None \<longrightarrow> c @ u @ zs = c @ u @ t) \<and>
          grows cfg s (sync_groups_loop cfg send cgs ogs s2) (c @ u @ zs)"
        using zs(1,2) by simp
      then show ?thesis
        unfolding d eq by (rule exI [where x = "c @ u @ zs"])
    qed
  qed
qed

lemma grows_start:
  "grows cfg (start w) r ys \<longleftrightarrow>
     emitted (trace r) = ys \<and> sent r = (if DRY_RUN cfg then [] else ys)"
  by (simp add: grows_def start_def)

lemma emitted_prefix_diff:
  "prefix (emitted (trace (sync_groups_loop cfg send cgs ogs (start w)))) (diff ogs cgs)"
  using sync_groups_loop_run [of ogs cgs cfg send "start w"]
  by (auto simp: grows_start)

lemma emitted_complete:
  "raised (sync_groups_loop cfg send cgs ogs (start w)) = None \<Longrightarrow>
   emitted (trace (sync_groups_loop cfg send cgs ogs (start w))) = diff ogs cgs"
  using sync_groups_loop_run [of ogs cgs cfg send "start w"]
  by (auto simp: grows_start)

lemma sent_emitted:
  "sent (sync_groups_loop cfg send cgs ogs (start w)) =
     (if DRY_RUN cfg then []
      else emitted (trace (sync_groups_loop cfg send cgs ogs (start w))))"
  using sync_groups_loop_run [of ogs cgs cfg send "start w"]
  by (auto simp: grows_start)

lemma emitted_subset_diff:
  "set (emitted (trace (sync_groups_loop cfg send cgs ogs (start w)))) \<subseteq> set (diff ogs cgs)"
  by (rule set_mono_prefix) (rule emitted_prefix_diff)

lemma update_intents_iff:
  "i \<in> set (update_intents n ms item) \<longleftrightarrow>
     n = fst item \<and>
     (set ms - set (members (snd item)) \<noteq> {} \<or> set (members (snd item)) - set ms \<noteq> {}) \<and>
     i = UpdateGroup (id' (snd item)) n
           (set ms - set (members (snd item))) (set (members (snd item)) - set ms)"
  by (cases item) (auto simp: update_intents_def Let_def)

lemma group_intents_iff:
  "i \<in> set (group_intents cgs (n, ms)) \<longleftrightarrow>
     (n \<notin> set (dict_keys cgs) \<and> i = CreateGroup n ms) \<or>
     (\<exists>p. (n, p) \<in> set cgs \<and>
        (set ms - set (members p) \<noteq> {} \<or> set (members p) - set ms \<noteq> {}) \<and>
        i = UpdateGroup (id' p) n (set ms - set (members p)) (set (members p) - set ms))"
proof -
  have "(\<exists>item\<in>set cgs. i \<in> set (update_intents n ms item)) \<longleftrightarrow>
     (\<exists>p. (n, p) \<in> set cgs \<and>
        (set ms - set (members p) \<noteq> {} \<or> set (members p) - set ms \<noteq> {}) \<and>
        i = UpdateGroup (id' p) n (set ms - set (members p)) (set (members p) - set ms))"
    unfolding update_intents_iff by force
  then show ?thesis
    by (auto simp: group_intents_def)
qed

lemma diff_iff:
  "i \<in> set (diff ogs cgs) \<longleftrightarrow> (\<exists>n ms. (n, ms) \<in> set ogs \<and> i \<in> set (group_intents cgs (n, ms)))"
  by (auto simp: diff_def)

lemma CreateGroup_in_diff:
  "CreateGroup n ms \<in> set (diff ogs cgs) \<longleftrightarrow> (n, ms) \<in> set ogs \<and> n \<notin> set (dict_keys cgs)"
  by (auto simp: diff_iff group_intents_iff)

lemma UpdateGroup_in_diff:
  "UpdateGroup gid n add rem \<in> set (diff ogs cgs) \<longleftrightarrow>
     (\<exists>ms p. (n, ms) \<in> set ogs \<and> (n, p) \<in> set cgs \<and> gid = id' p \<and>
        add = set ms - set (members p) \<and> rem = set (members p) - set ms \<and>
        (add \<noteq> {} \<or> rem \<noteq> {}))"
  by (auto simp: diff_iff group_intents_iff)

lemmas run_defs =
  create_step_def update_step_def perform_def log_response_def log_event_def start_def
  dict_keys_def Let_def live_def dry_def answering_def failing_def insert_Diff_if

subsection \<open>Updates are disjoint and never empty\<close>

text \<open>
  C4. Every UpdateGroup intent that a run announces, whatever the settings and whatever
  the target system answers, has disjoint sets of members to add and to remove, and at
  least one of the two is not empty.
\<close>

theorem update_disjoint_nonempty:
  "UpdateGroup gid n add rem
     \<in> set (emitted (trace (sync_groups_loop cfg send clickup_groups okta_groups (start w))))
   \<longrightarrow> add \<inter> rem = {} \<and> (add \<noteq> {} \<or> rem \<noteq> {})"
proof
  assume "UpdateGroup gid n add rem
     \<in> set (emitted (trace (sync_groups_loop cfg send clickup_groups okta_groups (start w))))"
  then have "UpdateGroup gid n add rem \<in> set (diff okta_groups clickup_groups)"
    using emitted_subset_diff by (rule rev_subsetD)
  then have "\<exists>ms p. (n, ms) \<in> set okta_groups \<and> (n, p) \<in> set clickup_groups \<and> gid = id' p \<and>
        add = set ms - set (members p) \<and> rem = set (members p) - set ms \<and>
        (add \<noteq> {} \<or> rem \<noteq> {})"
    unfolding UpdateGroup_in_diff .
  then obtain ms where "\<exists>p. (n, ms) \<in> set okta_groups \<and> (n, p) \<in> set clickup_groups \<and>
        gid = id' p \<and> add = set ms - set (members p) \<and> rem = set (members p) - set ms \<and>
        (add \<noteq> {} \<or> rem \<noteq> {})" ..
  then obtain p where h: "(n, ms) \<in> set okta_groups \<and> (n, p) \<in> set clickup_groups \<and>
        gid = id' p \<and> add = set ms - set (members p) \<and> rem = set (members p) - set ms \<and>
        (add \<noteq> {} \<or> rem \<noteq> {})" ..
  from h have a: "add = set ms - set (members p)" by (elim conjE)
  from h have r: "rem = set (members p) - set ms" by (elim conjE)
  from h have ne: "add \<noteq> {} \<or> rem \<noteq> {}" by (elim conjE)
  have "add \<inter> rem = {}"
    unfolding a r by auto
  then show "add \<inter> rem = {} \<and> (add \<noteq> {} \<or> rem \<noteq> {})"
    using ne by (rule conjI)
qed

theorem update_disjoint_nonempty_witness:
  "UpdateGroup ''ga'' ''eng-a'' {3} {1}
     \<in> set (emitted (trace (sync_groups_loop live answering
          [(''eng-a'', \<lparr>id' = ''ga'', members = [1, 2]\<rparr>)] [(''eng-a'', [2, 3])] (start 0))))
   \<and> {3} \<inter> {1} = ({} :: user_id set) \<and> {3} \<noteq> ({} :: user_id set)"
proof -
  have h: "UpdateGroup ''ga'' ''eng-a'' {3} {1}
     \<in> set (emitted (trace (sync_groups_loop live answering
          [(''eng-a'', \<lparr>id' = ''ga'', members = [1, 2]\<rparr>)] [(''eng-a'', [2, 3])] (start 0))))"
    by (simp add: run_defs)
  show ?thesis
    using h update_disjoint_nonempty [of "''ga''" "''eng-a''" "{3}" "{1}" live answering
        "[(''eng-a'', \<lparr>id' = ''ga'', members = [1, 2]\<rparr>)]" "[(''eng-a'', [2, 3])]" 0]
    by simp
qed

subsection \<open>The example data, evaluated\<close>

lemma snapshot_okta:
  "get_okta_groups live snapshot =
     [(''eng-b'', [''a@co.com'', ''b@co.com'']), (''eng-a'', [''b@co.com'']),
      (''eng-c'', [''z@co.com''])]"
  "get_okta_groups dry snapshot = get_okta_groups live snapshot"
  by (simp_all add: get_okta_groups_def snapshot_def live_def dry_def startswith_def
      suffix_to_prefix)

lemma snapshot_match:
  "match_users live snapshot = [(''eng-b'', [1, 2, 3]), (''eng-a'', [2, 3])]"
  "match_users dry snapshot = [(''eng-b'', [1, 2, 3]), (''eng-a'', [2, 3])]"
  unfolding match_users_def snapshot_okta
  by (simp_all add: get_clickup_users_def snapshot_def dict_keys_def)

lemma snapshot_groups:
  "get_clickup_groups live snapshot = [(''eng-a'', \<lparr>id' = ''ga'', members = [1, 2]\<rparr>)]"
  "get_clickup_groups dry snapshot = [(''eng-a'', \<lparr>id' = ''ga'', members = [1, 2]\<rparr>)]"
  by (simp_all add: get_clickup_groups_def snapshot_def live_def dry_def startswith_def)

subsection \<open>A dry run sends nothing\<close>

lemma perform_dry:
  "DRY_RUN cfg \<Longrightarrow> perform cfg send i s = log_event (Log_dry_run i) s"
  by (simp add: perform_def)

lemma create_step_dry:
  "DRY_RUN cfg \<Longrightarrow> create_step cfg send cgs n ms s =
     (if n \<notin> set (dict_keys cgs)
      then log_event (Log_dry_run (CreateGroup n ms)) (log_event (Log_intent (CreateGroup n ms)) s)
      else s)"
  by (simp add: create_step_def perform_dry)

lemma update_step_dry:
  "DRY_RUN cfg \<Longrightarrow> update_step cfg send ms n p s =
     (let add = set ms - set (members p); rem = set (members p) - set ms
      in if add \<noteq> {} \<or> rem \<noteq> {}
         then log_event (Log_dry_run (UpdateGroup (id' p) n add rem))
                (log_event (Log_intent (UpdateGroup (id' p) n add rem)) s)
         else log_event (Log_no_changes n) s)"
  by (simp add: update_step_def perform_dry Let_def)

lemma unchanged_refl: "unchanged s s"
  by (simp add: unchanged_def)

lemma unchanged_trans: "unchanged s r \<Longrightarrow> unchanged r t \<Longrightarrow> unchanged s t"
  by (simp add: unchanged_def)

lemma unchanged_log_intent: "unchanged s (log_event (Log_intent i) s)"
  by (simp add: unchanged_def log_event_def answered_append)

lemma unchanged_log_dry_run: "unchanged s (log_event (Log_dry_run i) s)"
  by (simp add: unchanged_def log_event_def answered_append)

lemma unchanged_log_no_changes: "unchanged s (log_event (Log_no_changes n) s)"
  by (simp add: unchanged_def log_event_def answered_append)

lemma unchanged_create_step:
  "DRY_RUN cfg \<Longrightarrow> unchanged s (create_step cfg send cgs n ms s)"
  by (simp add: create_step_dry unchanged_refl
      unchanged_trans [OF unchanged_log_intent unchanged_log_dry_run])

lemma unchanged_update_step:
  "DRY_RUN cfg \<Longrightarrow> unchanged s (update_step cfg send ms n p s)"
  by (simp add: update_step_dry Let_def unchanged_log_no_changes
      unchanged_trans [OF unchanged_log_intent unchanged_log_dry_run])

lemma unchanged_update_loop:
  "DRY_RUN cfg \<Longrightarrow> unchanged s (update_loop cfg send n ms items s)"
proof (induction items arbitrary: s)
  case Nil
  show ?case by (simp add: unchanged_refl)
next
  case (Cons item items)
  obtain cg p where item: "item = (cg, p)" by (cases item)
  define s' where "s' = (if n = cg then update_step cfg send ms cg p s else s)"
  have head: "unchanged s s'"
    using Cons.prems by (simp add: s'_def unchanged_update_step unchanged_refl)
  have "update_loop cfg send n ms (item # items) s = s' \<or>
        update_loop cfg send n ms (item # items) s = update_loop cfg send n ms items s'"
    by (simp add: item s'_def Let_def)
  then show ?case
  proof
    assume "update_loop cfg send n ms (item # items) s = s'"
    with head show ?thesis by simp
  next
    assume "update_loop cfg send n ms (item # items) s = update_loop cfg send n ms items s'"
    with unchanged_trans [OF head Cons.IH [OF Cons.prems, of s']] show ?thesis by simp
  qed
qed

lemma unchanged_sync_groups_loop:
  "DRY_RUN cfg \<Longrightarrow> unchanged s (sync_groups_loop cfg send cgs ogs s)"
proof (induction ogs arbitrary: s)
  case Nil
  show ?case by (simp add: unchanged_refl)
next
  case (Cons item ogs)
  obtain n ms where item: "item = (n, ms)" by (cases item)
  define s1 where "s1 = create_step cfg send cgs n ms s"
  define s2 where "s2 = update_loop cfg send n ms cgs s1"
  have u1: "unchanged s s1"
    using Cons.prems by (simp add: s1_def unchanged_create_step)
  have u2: "unchanged s s2"
    using Cons.prems unchanged_trans [OF u1] by (simp add: s2_def unchanged_update_loop)
  have "sync_groups_loop cfg send cgs (item # ogs) s = s1 \<or>
        sync_groups_loop cfg send cgs (item # ogs) s = s2 \<or>
        sync_groups_loop cfg send cgs (item # ogs) s = sync_groups_loop cfg send cgs ogs s2"
    by (simp add: item s1_def s2_def Let_def)
  then show ?case
  proof (elim disjE)
    assume "sync_groups_loop cfg send cgs (item # ogs) s = s1"
    with u1 show ?thesis by simp
  next
    assume "sync_groups_loop cfg send cgs (item # ogs) s = s2"
    with u2 show ?thesis by simp
  next
    assume "sync_groups_loop cfg send cgs (item # ogs) s = sync_groups_loop cfg send cgs ogs s2"
    with unchanged_trans [OF u2 Cons.IH [OF Cons.prems, of s2]] show ?thesis by simp
  qed
qed

lemma update_loop_dry_send:
  "DRY_RUN cfg \<Longrightarrow> update_loop cfg send n ms items s = update_loop cfg send' n ms items s"
proof (induction items arbitrary: s)
  case Nil
  show ?case by simp
next
  case (Cons item items)
  obtain cg p where item: "item = (cg, p)" by (cases item)
  have u: "update_step cfg send ms cg p s = update_step cfg send' ms cg p s"
    using Cons.prems by (simp add: update_step_dry)
  show ?case
    unfolding item update_loop.simps u Cons.IH [OF Cons.prems] ..
qed

lemma sync_groups_loop_dry_send:
  "DRY_RUN cfg \<Longrightarrow> sync_groups_loop cfg send cgs ogs s = sync_groups_loop cfg send' cgs ogs s"
proof (induction ogs arbitrary: s)
  case Nil
  show ?case by simp
next
  case (Cons item ogs)
  obtain n ms where item: "item = (n, ms)" by (cases item)
  have c: "create_step cfg send cgs n ms s = create_step cfg send' cgs n ms s"
    using Cons.prems by (simp add: create_step_dry)
  have u: "update_loop cfg send n ms cgs t = update_loop cfg send' n ms cgs t" for t
    using Cons.prems by (rule update_loop_dry_send)
  show ?case
    unfolding item sync_groups_loop.simps c u Cons.IH [OF Cons.prems] ..
qed

text \<open>
  C5. With \<open>DRY_RUN\<close> set, a run issues no create and no update request, whatever was
  fetched: nothing is sent, the outside world is as it was, no answer is logged, no
  exception ends the run, and the run does not depend on how the target system would
  have answered.
\<close>

theorem dry_run_sends_nothing:
  assumes "DRY_RUN cfg"
  shows "sent (sync_groups cfg f send w) = [] \<and>
         world (sync_groups cfg f send w) = w \<and>
         answered (trace (sync_groups cfg f send w)) = [] \<and>
         raised (sync_groups cfg f send w) = None \<and>
         sync_groups cfg f send w = sync_groups cfg f send' w"
proof -
  have "unchanged (start w) (sync_groups cfg f send w)"
    unfolding sync_groups_def Let_def using assms by (rule unchanged_sync_groups_loop)
  moreover have "sync_groups cfg f send w = sync_groups cfg f send' w"
    unfolding sync_groups_def Let_def using assms by (rule sync_groups_loop_dry_send)
  ultimately show ?thesis
    by (simp add: unchanged_def start_def)
qed

theorem dry_run_sends_nothing_witness:
  "DRY_RUN dry \<and>
   emitted (trace (sync_groups dry snapshot failing 0)) =
     [CreateGroup ''eng-b'' [1, 2, 3], UpdateGroup ''ga'' ''eng-a'' {3} {1}] \<and>
   sent (sync_groups dry snapshot failing 0) = [] \<and>
   world (sync_groups dry snapshot failing 0) = 0 \<and>
   raised (sync_groups dry snapshot failing 0) = None \<and>
   sync_groups dry snapshot failing 0 = sync_groups dry snapshot answering 0"
proof -
  have h: "DRY_RUN dry"
    by (simp add: dry_def)
  have e: "emitted (trace (sync_groups dry snapshot failing 0)) =
     [CreateGroup ''eng-b'' [1, 2, 3], UpdateGroup ''ga'' ''eng-a'' {3} {1}]"
    unfolding sync_groups_def snapshot_match snapshot_groups
    by (simp add: run_defs)
  note d = dry_run_sends_nothing [OF h, of snapshot failing 0 answering]
  show ?thesis
    by (intro conjI h e d [THEN conjunct1] d [THEN conjunct2, THEN conjunct1]
        d [THEN conjunct2, THEN conjunct2, THEN conjunct2, THEN conjunct1]
        d [THEN conjunct2, THEN conjunct2, THEN conjunct2, THEN conjunct2])
qed

subsection \<open>The intents of one group\<close>

lemma update_intents_other: "n \<noteq> fst item \<Longrightarrow> update_intents n ms item = []"
  by (cases item) (simp add: update_intents_def)

lemma update_intents_absent:
  "n \<notin> set (dict_keys cgs) \<Longrightarrow> concat (map (update_intents n ms) cgs) = []"
  by (induction cgs) (auto simp: dict_keys_def update_intents_other)

lemma update_intents_distinct:
  "distinct (dict_keys cgs) \<Longrightarrow>
   concat (map (update_intents n ms) cgs) =
     (case map_of cgs n of None \<Rightarrow> [] | Some p \<Rightarrow> update_intents n ms (n, p))"
proof (induction cgs)
  case Nil
  show ?case by simp
next
  case (Cons item cgs)
  obtain cg p where item: "item = (cg, p)" by (cases item)
  show ?case
  proof (cases "n = cg")
    case True
    with Cons.prems have "n \<notin> set (dict_keys cgs)"
      by (simp add: item dict_keys_def)
    then have "concat (map (update_intents n ms) cgs) = []"
      by (rule update_intents_absent)
    with True show ?thesis by (simp add: item)
  next
    case False
    with Cons show ?thesis
      by (simp add: item dict_keys_def update_intents_other)
  qed
qed

lemma absent_iff: "n \<notin> set (dict_keys cgs) \<longleftrightarrow> map_of cgs n = None"
  by (simp add: dict_keys_def map_of_eq_None_iff)

lemma group_intents_distinct:
  "distinct (dict_keys cgs) \<Longrightarrow>
   group_intents cgs (n, ms) =
     (case map_of cgs n of
        None \<Rightarrow> [CreateGroup n ms]
      | Some p \<Rightarrow> update_intents n ms (n, p))"
  by (simp add: group_intents_def update_intents_distinct absent_iff split: option.splits)

lemma intent_name_group_intents:
  "i \<in> set (group_intents cgs (n, ms)) \<Longrightarrow> intent_name i = n"
  by (auto simp: group_intents_iff)

lemma filter_group_intents:
  "filter (\<lambda>i. intent_name i = n) (group_intents cgs (k, ms)) =
     (if k = n then group_intents cgs (k, ms) else [])"
proof -
  have "\<forall>i \<in> set (group_intents cgs (k, ms)). intent_name i = k"
    by (simp add: intent_name_group_intents)
  then show ?thesis
    by (auto simp: filter_empty_conv filter_id_conv)
qed

lemma filter_diff_absent:
  "n \<notin> set (dict_keys ogs) \<Longrightarrow> filter (\<lambda>i. intent_name i = n) (diff ogs cgs) = []"
  by (induction ogs) (auto simp: diff_def dict_keys_def filter_group_intents)

lemma filter_diff:
  "distinct (dict_keys ogs) \<Longrightarrow> (n, ms) \<in> set ogs \<Longrightarrow>
   filter (\<lambda>i. intent_name i = n) (diff ogs cgs) = group_intents cgs (n, ms)"
proof (induction ogs)
  case Nil
  then show ?case by simp
next
  case (Cons item ogs)
  obtain k v where item: "item = (k, v)" by (cases item)
  have d: "diff (item # ogs) cgs = group_intents cgs (k, v) @ diff ogs cgs"
    by (simp add: diff_def item)
  show ?case
  proof (cases "k = n")
    case True
    with Cons.prems have "n \<notin> set (dict_keys ogs)"
      by (simp add: item dict_keys_def)
    then have rest: "filter (\<lambda>i. intent_name i = n) (diff ogs cgs) = []"
      by (rule filter_diff_absent)
    from True Cons.prems have "v = ms"
      by (auto simp: item dict_keys_def rev_image_eqI)
    with True rest show ?thesis
      by (simp add: d filter_group_intents)
  next
    case False
    from Cons.prems have "distinct (dict_keys ogs)"
      by (simp add: item dict_keys_def)
    moreover from Cons.prems False have "(n, ms) \<in> set ogs"
      by (simp add: item)
    ultimately have "filter (\<lambda>i. intent_name i = n) (diff ogs cgs) = group_intents cgs (n, ms)"
      by (rule Cons.IH)
    with False show ?thesis
      by (simp add: d filter_group_intents)
  qed
qed

text \<open>
  C1. For every group name of the desired membership mapping, a run that no exception
  cuts short announces exactly this for the name: when the name is not among the
  existing ClickUp groups, one CreateGroup with the name and the desired members; when
  it is, with id \<open>id'\<close> and members \<open>members\<close>, nothing if the members to add (desired
  minus current) and to remove (current minus desired) are both empty, and otherwise one
  UpdateGroup with that id, the name and the two sets. Both mappings are dictionaries,
  so their keys are distinct.
\<close>

theorem diff_per_group:
  assumes "distinct (dict_keys desired)" and "distinct (dict_keys existing)"
    and "(name, ms) \<in> set desired"
    and "raised (sync_groups_loop cfg send existing desired (start w)) = None"
  shows "filter (\<lambda>i. intent_name i = name)
           (emitted (trace (sync_groups_loop cfg send existing desired (start w)))) =
         (case map_of existing name of
            None \<Rightarrow> [CreateGroup name ms]
          | Some props \<Rightarrow>
              (let add = set ms - set (members props);
                   rem = set (members props) - set ms
               in if add = {} \<and> rem = {} then []
                  else [UpdateGroup (id' props) name add rem]))"
proof -
  have "emitted (trace (sync_groups_loop cfg send existing desired (start w)))
      = diff desired existing"
    using assms(4) by (rule emitted_complete)
  moreover have "filter (\<lambda>i. intent_name i = name) (diff desired existing)
      = group_intents existing (name, ms)"
    using assms(1,3) by (rule filter_diff)
  moreover have "group_intents existing (name, ms) =
      (case map_of existing name of
         None \<Rightarrow> [CreateGroup name ms]
       | Some p \<Rightarrow> update_intents name ms (name, p))"
    using assms(2) by (rule group_intents_distinct)
  moreover have "update_intents name ms (name, p) =
      (let add = set ms - set (members p);
           rem = set (members p) - set ms
       in if add = {} \<and> rem = {} then []
          else [UpdateGroup (id' p) name add rem])" for p
    by (simp add: update_intents_def Let_def)
  ultimately show ?thesis
    by (simp cong: option.case_cong)
qed

theorem diff_per_group_witness:
  "distinct (dict_keys [(''eng-b'', [1, 2, 3]), (''eng-a'', [2, 3 :: user_id])]) \<and>
   distinct (dict_keys [(''eng-a'', \<lparr>id' = ''ga'', members = [1, 2]\<rparr>)]) \<and>
   raised (sync_groups_loop live answering [(''eng-a'', \<lparr>id' = ''ga'', members = [1, 2]\<rparr>)]
     [(''eng-b'', [1, 2, 3]), (''eng-a'', [2, 3])] (start 0)) = None \<and>
   filter (\<lambda>i. intent_name i = ''eng-a'')
     (emitted (trace (sync_groups_loop live answering
        [(''eng-a'', \<lparr>id' = ''ga'', members = [1, 2]\<rparr>)]
        [(''eng-b'', [1, 2, 3]), (''eng-a'', [2, 3])] (start 0))))
     = [UpdateGroup ''ga'' ''eng-a'' {3} {1}] \<and>
   filter (\<lambda>i. intent_name i = ''eng-b'')
     (emitted (trace (sync_groups_loop live answering
        [(''eng-a'', \<lparr>id' = ''ga'', members = [1, 2]\<rparr>)]
        [(''eng-b'', [1, 2, 3]), (''eng-a'', [2, 3])] (start 0))))
     = [CreateGroup ''eng-b'' [1, 2, 3]]"
proof -
  let ?d = "[(''eng-b'', [1, 2, 3]), (''eng-a'', [2, 3 :: user_id])]"
  let ?e = "[(''eng-a'', \<lparr>id' = ''ga'', members = [1, 2]\<rparr>)]"
  have h1: "distinct (dict_keys ?d)" by (simp add: dict_keys_def)
  have h2: "distinct (dict_keys ?e)" by (simp add: dict_keys_def)
  have h3: "raised (sync_groups_loop live answering ?e ?d (start 0)) = None"
    by (simp add: run_defs)
  have a: "(''eng-a'', [2, 3]) \<in> set ?d" by simp
  have b: "(''eng-b'', [1, 2, 3]) \<in> set ?d" by simp
  have ra: "filter (\<lambda>i. intent_name i = ''eng-a'')
      (emitted (trace (sync_groups_loop live answering ?e ?d (start 0))))
      = [UpdateGroup ''ga'' ''eng-a'' {3} {1}]"
    using diff_per_group [OF h1 h2 a h3] by (simp add: insert_Diff_if)
  have rb: "filter (\<lambda>i. intent_name i = ''eng-b'')
      (emitted (trace (sync_groups_loop live answering ?e ?d (start 0))))
      = [CreateGroup ''eng-b'' [1, 2, 3]]"
    using diff_per_group [OF h1 h2 b h3] by simp
  show ?thesis
    by (intro conjI h1 h2 h3 ra rb)
qed

subsection \<open>Groups missing from the source are left alone\<close>

text \<open>
  C3. A ClickUp group whose name is not in the desired membership mapping is never
  touched: no intent announced and no request issued in any run, complete or cut short,
  dry or not, carries its name or its id. Group ids identify the ClickUp groups, so they
  are distinct.
\<close>

theorem no_deletions:
  assumes "(name, props) \<in> set existing" and "name \<notin> set (dict_keys desired)"
    and "distinct (map (id' \<circ> snd) existing)"
  shows "\<forall>i \<in> set (emitted (trace (sync_groups_loop cfg send existing desired (start w))))
              \<union> set (sent (sync_groups_loop cfg send existing desired (start w))).
           intent_name i \<noteq> name \<and> intent_gid i \<noteq> Some (id' props)"
proof
  fix i
  assume "i \<in> set (emitted (trace (sync_groups_loop cfg send existing desired (start w))))
              \<union> set (sent (sync_groups_loop cfg send existing desired (start w)))"
  then have "i \<in> set (emitted (trace (sync_groups_loop cfg send existing desired (start w))))"
    by (simp add: sent_emitted split: if_splits)
  then have i: "i \<in> set (diff desired existing)"
    using emitted_subset_diff by (rule rev_subsetD)
  show "intent_name i \<noteq> name \<and> intent_gid i \<noteq> Some (id' props)"
  proof (cases i)
    case (CreateGroup n ms)
    with i have "(n, ms) \<in> set desired"
      by (simp add: CreateGroup_in_diff)
    then have "n \<in> set (dict_keys desired)"
      by (auto simp: dict_keys_def rev_image_eqI)
    with assms(2) CreateGroup show ?thesis by auto
  next
    case (UpdateGroup gid n add rem)
    with i have "\<exists>ms p. (n, ms) \<in> set desired \<and> (n, p) \<in> set existing \<and> gid = id' p \<and>
        add = set ms - set (members p) \<and> rem = set (members p) - set ms \<and>
        (add \<noteq> {} \<or> rem \<noteq> {})"
      by (simp add: UpdateGroup_in_diff)
    then obtain ms where "\<exists>p. (n, ms) \<in> set desired \<and> (n, p) \<in> set existing \<and> gid = id' p \<and>
        add = set ms - set (members p) \<and> rem = set (members p) - set ms \<and>
        (add \<noteq> {} \<or> rem \<noteq> {})" ..
    then obtain p where h: "(n, ms) \<in> set desired \<and> (n, p) \<in> set existing \<and> gid = id' p \<and>
        add = set ms - set (members p) \<and> rem = set (members p) - set ms \<and>
        (add \<noteq> {} \<or> rem \<noteq> {})" ..
    from h have nd: "(n, ms) \<in> set desired" by (elim conjE)
    from h have ne: "(n, p) \<in> set existing" by (elim conjE)
    from h have g: "gid = id' p" by (elim conjE)
    from nd have "n \<in> set (dict_keys desired)"
      by (auto simp: dict_keys_def rev_image_eqI)
    with assms(2) have neq: "n \<noteq> name" by auto
    have "id' p \<noteq> id' props"
    proof
      assume "id' p = id' props"
      then have "(id' \<circ> snd) (n, p) = (id' \<circ> snd) (name, props)" by simp
      with assms(3) ne assms(1) have "(n, p) = (name, props)"
        by (simp only: distinct_map inj_on_def)
      with neq show False by simp
    qed
    with neq UpdateGroup g show ?thesis by simp
  qed
qed

theorem no_deletions_witness:
  "(''eng-old'', \<lparr>id' = ''go'', members = [5]\<rparr>)
     \<in> set [(''eng-a'', \<lparr>id' = ''ga'', members = [1, 2]\<rparr>),
            (''eng-old'', \<lparr>id' = ''go'', members = [5]\<rparr>)] \<and>
   ''eng-old'' \<notin> set (dict_keys [(''eng-a'', [2, 3 :: user_id])]) \<and>
   distinct (map (id' \<circ> snd) [(''eng-a'', \<lparr>id' = ''ga'', members = [1, 2]\<rparr>),
            (''eng-old'', \<lparr>id' = ''go'', members = [5]\<rparr>)]) \<and>
   sent (sync_groups_loop live answering
      [(''eng-a'', \<lparr>id' = ''ga'', members = [1, 2]\<rparr>),
       (''eng-old'', \<lparr>id' = ''go'', members = [5]\<rparr>)]
      [(''eng-a'', [2, 3])] (start 0)) = [UpdateGroup ''ga'' ''eng-a'' {3} {1}] \<and>
   intent_name (UpdateGroup ''ga'' ''eng-a'' {3} {1}) \<noteq> ''eng-old'' \<and>
   intent_gid (UpdateGroup ''ga'' ''eng-a'' {3} {1}) \<noteq> Some ''go''"
proof -
  let ?e = "[(''eng-a'', \<lparr>id' = ''ga'', members = [1, 2]\<rparr>),
             (''eng-old'', \<lparr>id' = ''go'', members = [5]\<rparr>)]"
  let ?d = "[(''eng-a'', [2, 3 :: user_id])]"
  have h1: "(''eng-old'', \<lparr>id' = ''go'', members = [5]\<rparr>) \<in> set ?e" by simp
  have h2: "''eng-old'' \<notin> set (dict_keys ?d)" by (simp add: dict_keys_def)
  have h3: "distinct (map (id' \<circ> snd) ?e)" by simp
  have s: "sent (sync_groups_loop live answering ?e ?d (start 0))
      = [UpdateGroup ''ga'' ''eng-a'' {3} {1}]"
    by (simp add: run_defs)
  then have "UpdateGroup ''ga'' ''eng-a'' {3} {1}
      \<in> set (emitted (trace (sync_groups_loop live answering ?e ?d (start 0))))
        \<union> set (sent (sync_groups_loop live answering ?e ?d (start 0)))"
    by simp
  with no_deletions [OF h1 h2 h3, of live answering 0]
  have "intent_name (UpdateGroup ''ga'' ''eng-a'' {3} {1}) \<noteq> ''eng-old'' \<and>
      intent_gid (UpdateGroup ''ga'' ''eng-a'' {3} {1})
        \<noteq> Some (id' \<lparr>id' = ''go'', members = [5]\<rparr>)"
    by (rule bspec)
  then show ?thesis
    by (intro conjI h1 h2 h3 s) simp_all
qed

lemma snapshot_users:
  "get_clickup_users snapshot =
     [\<lparr>user_id = 1, user_email = ''a@co.com''\<rparr>, \<lparr>user_id = 2, user_email = ''b@co.com''\<rparr>,
      \<lparr>user_id = 3, user_email = ''b@co.com''\<rparr>]"
  by (simp add: get_clickup_users_def snapshot_def)

subsection \<open>Dictionary operations\<close>

lemma map_of_dict_set: "map_of (dict_set d k v) = (map_of d)(k \<mapsto> v)"
  by (induction d) (auto simp: fun_eq_iff)

lemma dict_keys_dict_set:
  "dict_keys (dict_set d k v) =
     (if k \<in> set (dict_keys d) then dict_keys d else dict_keys d @ [k])"
  by (induction d) (force simp: dict_keys_def image_iff)+

lemma distinct_dict_set:
  "distinct (dict_keys d) \<Longrightarrow> distinct (dict_keys (dict_set d k v))"
  by (simp add: dict_keys_dict_set)

lemma dict_keys_dict_append: "dict_keys (dict_append d k x) = dict_keys d"
  by (induction d) (auto simp: dict_keys_def)

lemma map_of_dict_append:
  "map_of (dict_append d k x) k' =
     (if k' = k then map_option (\<lambda>l. l @ [x]) (map_of d k) else map_of d k')"
  by (induction d) auto

lemma dict_keys_dict_extend:
  "dict_keys (dict_extend gm g ids) =
     (if ids = [] \<or> g \<in> set (dict_keys gm) then dict_keys gm else dict_keys gm @ [g])"
  by (induction ids arbitrary: gm) (auto simp: dict_keys_dict_append dict_keys_dict_set)

lemma map_of_dict_extend_other:
  "k \<noteq> g \<Longrightarrow> map_of (dict_extend gm g ids) k = map_of gm k"
  by (induction ids arbitrary: gm) (auto simp: map_of_dict_append map_of_dict_set)

lemma map_of_dict_extend:
  "map_of (dict_extend gm g ids) g =
     (if ids = [] then map_of gm g
      else Some ((case map_of gm g of None \<Rightarrow> [] | Some l \<Rightarrow> l) @ ids))"
proof (induction ids arbitrary: gm)
  case Nil
  show ?case by simp
next
  case (Cons x xs)
  define gm' where "gm' = dict_append
    (if g \<notin> set (dict_keys gm) then dict_set gm g [] else gm) g x"
  have "map_of gm' g = Some ((case map_of gm g of None \<Rightarrow> [] | Some l \<Rightarrow> l) @ [x])"
    by (auto simp: gm'_def map_of_dict_append map_of_dict_set absent_iff)
  then show ?case
    by (simp add: Cons.IH [of gm'] gm'_def [symmetric])
qed

lemma dict_extend_append:
  "dict_extend gm g (xs @ ys) = dict_extend (dict_extend gm g xs) g ys"
  by (induction xs arbitrary: gm) simp_all

subsection \<open>The loops of the matcher\<close>

lemma match_user_loop_extend:
  "match_user_loop g email users gm = dict_extend gm g (matches email users)"
  by (induction users arbitrary: gm) (simp_all add: matches_def Let_def)

lemma match_email_loop_extend:
  "match_email_loop g emails clickup gm =
     dict_extend gm g (concat (map (\<lambda>email. matches email clickup) emails))"
  by (induction emails arbitrary: gm) (simp_all add: match_user_loop_extend dict_extend_append)

lemma concat_matches_empty:
  "concat (map (\<lambda>email. matches email clickup) emails) \<noteq> [] \<longleftrightarrow>
     (\<exists>email \<in> set emails. \<exists>user \<in> set clickup. user_email user = email)"
  by (auto simp: matches_def filter_empty_conv)

lemma keys_match_group_loop:
  "set (dict_keys (match_group_loop okta clickup gm)) =
     set (dict_keys gm) \<union>
     {g. \<exists>emails. (g, emails) \<in> set okta \<and>
          concat (map (\<lambda>email. matches email clickup) emails) \<noteq> []}"
proof (induction okta arbitrary: gm)
  case Nil
  show ?case by simp
next
  case (Cons item okta)
  obtain g emails where item: "item = (g, emails)" by (cases item)
  show ?case
    unfolding item match_group_loop.simps Cons.IH match_email_loop_extend dict_keys_dict_extend
    by auto
qed

lemma map_of_match_group_loop_other:
  "g \<notin> set (dict_keys okta) \<Longrightarrow> map_of (match_group_loop okta clickup gm) g = map_of gm g"
proof (induction okta arbitrary: gm)
  case Nil
  show ?case by simp
next
  case (Cons item okta)
  obtain k emails where item: "item = (k, emails)" by (cases item)
  from Cons.prems have "k \<noteq> g" and "g \<notin> set (dict_keys okta)"
    by (auto simp: item dict_keys_def)
  then show ?case
    by (simp add: item Cons.IH match_email_loop_extend map_of_dict_extend_other)
qed

lemma map_of_match_group_loop:
  "distinct (dict_keys okta) \<Longrightarrow> (g, emails) \<in> set okta \<Longrightarrow>
   map_of (match_group_loop okta clickup gm) g =
     map_of (dict_extend gm g (concat (map (\<lambda>email. matches email clickup) emails))) g"
proof (induction okta arbitrary: gm)
  case Nil
  then show ?case by simp
next
  case (Cons item okta)
  obtain k v where item: "item = (k, v)" by (cases item)
  show ?case
  proof (cases "k = g")
    case True
    with Cons.prems have "g \<notin> set (dict_keys okta)"
      by (simp add: item dict_keys_def)
    moreover from True Cons.prems have "v = emails"
      by (auto simp: item dict_keys_def rev_image_eqI)
    ultimately show ?thesis
      using True by (simp add: item map_of_match_group_loop_other match_email_loop_extend)
  next
    case False
    from Cons.prems have "distinct (dict_keys okta)"
      by (simp add: item dict_keys_def)
    moreover from Cons.prems False have "(g, emails) \<in> set okta"
      by (simp add: item)
    ultimately have "map_of (match_group_loop okta clickup (match_email_loop k v clickup gm)) g =
        map_of (dict_extend (match_email_loop k v clickup gm) g
          (concat (map (\<lambda>email. matches email clickup) emails))) g"
      by (rule Cons.IH)
    moreover have "map_of (match_email_loop k v clickup gm) g = map_of gm g"
      using False by (simp add: match_email_loop_extend map_of_dict_extend_other)
    ultimately show ?thesis
      by (simp add: item map_of_dict_extend)
  qed
qed

lemma distinct_match_group_loop:
  "distinct (dict_keys gm) \<Longrightarrow> distinct (dict_keys (match_group_loop okta clickup gm))"
proof (induction okta arbitrary: gm)
  case Nil
  then show ?case by simp
next
  case (Cons item okta)
  obtain k v where item: "item = (k, v)" by (cases item)
  from Cons.prems have "distinct (dict_keys (match_email_loop k v clickup gm))"
    by (simp add: match_email_loop_extend dict_keys_dict_extend)
  then show ?case
    unfolding item match_group_loop.simps by (rule Cons.IH)
qed

lemma distinct_get_okta_groups_loop:
  "distinct (dict_keys gm) \<Longrightarrow> distinct (dict_keys (get_okta_groups_loop cfg users gs gm))"
  by (induction gs arbitrary: gm) (simp_all add: Let_def distinct_dict_set)

lemma distinct_get_clickup_groups_loop:
  "distinct (dict_keys d) \<Longrightarrow> distinct (dict_keys (get_clickup_groups_loop cfg gs d))"
  by (induction gs arbitrary: d) (simp_all add: distinct_dict_set)

lemma distinct_get_okta_groups: "distinct (dict_keys (get_okta_groups cfg f))"
  unfolding get_okta_groups_def
  by (rule distinct_get_okta_groups_loop) (simp add: dict_keys_def)

lemma distinct_get_clickup_groups: "distinct (dict_keys (get_clickup_groups cfg f))"
  unfolding get_clickup_groups_def
  by (rule distinct_get_clickup_groups_loop) (simp add: dict_keys_def)

lemma distinct_match_users: "distinct (dict_keys (match_users cfg f))"
  unfolding match_users_def Let_def
  by (rule distinct_match_group_loop) (simp add: dict_keys_def)

subsection \<open>Which groups the matcher keeps\<close>

text \<open>
  C2. Every source group should have an entry in the output of the matcher, also a
  group none of whose member emails resolves: it should appear with an empty list of
  desired members, so that a ClickUp group of the same name can lose all its members.
  The script misses this case. \<open>get_okta_groups\<close> keeps the entry of a group without
  members, but \<open>match_users\<close> creates the entry of a group only when one of its emails
  matches a ClickUp user. In the example the Okta group \<open>eng-a\<close> has lost all its
  members: it is missing from the output of the matcher, the run announces and sends
  nothing, and the ClickUp group keeps the members 1 and 2. Given the entry with the
  empty list, the same loop sends the update that removes them.
\<close>

theorem match_users_drops_emptied_group:
  "get_okta_groups live emptied = [(''eng-a'', [])] \<and>
   get_clickup_groups live emptied = [(''eng-a'', \<lparr>id' = ''ga'', members = [1, 2]\<rparr>)] \<and>
   match_users live emptied = [] \<and>
   emitted (trace (sync_groups live emptied answering 0)) = [] \<and>
   sent (sync_groups live emptied answering 0) = [] \<and>
   sent (sync_groups_loop live answering (get_clickup_groups live emptied)
           [(''eng-a'', [])] (start 0))
     = [UpdateGroup ''ga'' ''eng-a'' {} {1, 2}]"
proof -
  have o: "get_okta_groups live emptied = [(''eng-a'', [])]"
    by (simp add: get_okta_groups_def emptied_def live_def startswith_def)
  have g: "get_clickup_groups live emptied = [(''eng-a'', \<lparr>id' = ''ga'', members = [1, 2]\<rparr>)]"
    by (simp add: get_clickup_groups_def emptied_def live_def startswith_def)
  have m: "match_users live emptied = []"
    unfolding match_users_def o by simp
  have e: "emitted (trace (sync_groups live emptied answering 0)) = []"
    unfolding sync_groups_def m g by (simp add: run_defs)
  have s: "sent (sync_groups live emptied answering 0) = []"
    unfolding sync_groups_def m g by (simp add: run_defs)
  have u: "sent (sync_groups_loop live answering (get_clickup_groups live emptied)
           [(''eng-a'', [])] (start 0))
     = [UpdateGroup ''ga'' ''eng-a'' {} {1, 2}]"
    unfolding g by (simp add: run_defs)
  show ?thesis
    by (intro conjI o g m e s u)
qed

subsection \<open>Which ids an email contributes\<close>

text \<open>
  C7, as the script has it. The claim that an email contributes the id of the first
  ClickUp user with that email, and only that one, fails: the loop over the ClickUp
  users does not stop at a match. In the example data the users 2 and 3 share the
  address \<open>b@co.com\<close>, the only member of \<open>eng-a\<close>, and both ids are contributed.
\<close>

theorem match_users_takes_every_match:
  "map_of (get_okta_groups live snapshot) ''eng-a'' = Some [''b@co.com''] \<and>
   matches ''b@co.com'' (get_clickup_users snapshot) = [2, 3] \<and>
   map_of (match_users live snapshot) ''eng-a'' = Some [2, 3]"
  by (simp add: snapshot_okta snapshot_match matches_def snapshot_users)

lemma map_of_match_users:
  assumes "(g, emails) \<in> set (get_okta_groups cfg f)"
  shows "map_of (match_users cfg f) g =
     map_of (dict_extend [] g
       (concat (map (\<lambda>email. matches email (get_clickup_users f)) emails))) g"
  unfolding match_users_def Let_def
  using distinct_get_okta_groups assms by (rule map_of_match_group_loop)

text \<open>
  C7, amended. An email contributes the ids of all ClickUp users whose email equals it
  (case-sensitive, exact), in the order of the ClickUp answer, and nothing when there is
  none: the desired members of a fetched Okta group are these ids for its emails in
  turn. With two ClickUp users of the same email, both ids are contributed.
\<close>

theorem match_users_all_matches:
  assumes "(g, emails) \<in> set (get_okta_groups cfg f)"
  shows "(case map_of (match_users cfg f) g of None \<Rightarrow> [] | Some ids \<Rightarrow> ids) =
     concat (map (\<lambda>email. matches email (get_clickup_users f)) emails)"
  unfolding map_of_match_users [OF assms]
  by (simp add: map_of_dict_extend del: concat_eq_Nil_conv)

theorem match_users_all_matches_witness:
  "(''eng-b'', [''a@co.com'', ''b@co.com'']) \<in> set (get_okta_groups live snapshot) \<and>
   map_of (match_users live snapshot) ''eng-b'' = Some [1, 2, 3] \<and>
   concat (map (\<lambda>email. matches email (get_clickup_users snapshot)) [''a@co.com'', ''b@co.com''])
     = [1, 2, 3]"
proof -
  have h: "(''eng-b'', [''a@co.com'', ''b@co.com'']) \<in> set (get_okta_groups live snapshot)"
    by (simp add: snapshot_okta)
  have m: "map_of (match_users live snapshot) ''eng-b'' = Some [1, 2, 3]"
    by (simp add: snapshot_match)
  have "concat (map (\<lambda>email. matches email (get_clickup_users snapshot))
      [''a@co.com'', ''b@co.com'']) = [1, 2, 3]"
    using match_users_all_matches [OF h] by (simp add: m)
  with h m show ?thesis
    by (intro conjI)
qed

subsection \<open>One intent per group, in the order of the source\<close>

lemma names_group_intents:
  "distinct (dict_keys cgs) \<Longrightarrow>
   map intent_name (group_intents cgs item) =
     (if group_intents cgs item = [] then [] else [fst item])"
  by (cases item)
     (simp add: group_intents_distinct update_intents_def Let_def split: option.splits)

lemma names_diff:
  "distinct (dict_keys cgs) \<Longrightarrow>
   map intent_name (diff ogs cgs) =
     map fst (filter (\<lambda>item. group_intents cgs item \<noteq> []) ogs)"
  by (induction ogs) (simp_all add: diff_def names_group_intents)

lemma distinct_names_diff:
  "distinct (dict_keys ogs) \<Longrightarrow> distinct (dict_keys cgs) \<Longrightarrow>
   distinct (map intent_name (diff ogs cgs))"
  by (simp add: names_diff dict_keys_def distinct_map_filter)

lemma subseq_names_diff:
  "distinct (dict_keys cgs) \<Longrightarrow> subseq (map intent_name (diff ogs cgs)) (dict_keys ogs)"
  by (simp add: names_diff dict_keys_def subseq_map)

lemma distinct_prefix: "prefix xs ys \<Longrightarrow> distinct ys \<Longrightarrow> distinct xs"
  by (auto simp: prefix_def)

lemma names_emitted_prefix:
  "prefix (map intent_name (emitted (trace (sync_groups_loop cfg send cgs ogs (start w)))))
     (map intent_name (diff ogs cgs))"
  by (rule map_mono_prefix) (rule emitted_prefix_diff)

lemma distinct_names_emitted:
  "distinct (dict_keys ogs) \<Longrightarrow> distinct (dict_keys cgs) \<Longrightarrow>
   distinct (map intent_name (emitted (trace (sync_groups_loop cfg send cgs ogs (start w)))))"
  by (rule distinct_prefix [OF names_emitted_prefix]) (rule distinct_names_diff)

lemma keys_match_group_loop_subseq:
  "\<exists>zs. dict_keys (match_group_loop okta clickup gm) = dict_keys gm @ zs \<and>
        subseq zs (dict_keys okta)"
proof (induction okta arbitrary: gm)
  case Nil
  show ?case by (simp add: dict_keys_def)
next
  case (Cons item okta)
  obtain g emails where item: "item = (g, emails)" by (cases item)
  define gm' where "gm' = match_email_loop g emails clickup gm"
  define h where "h = (if concat (map (\<lambda>email. matches email clickup) emails) = []
      \<or> g \<in> set (dict_keys gm) then [] else [g])"
  have k: "dict_keys gm' = dict_keys gm @ h"
    by (simp add: gm'_def h_def match_email_loop_extend dict_keys_dict_extend
        del: concat_eq_Nil_conv)
  have "\<exists>zs. dict_keys (match_group_loop okta clickup gm') = dict_keys gm' @ zs \<and>
        subseq zs (dict_keys okta)"
    by (rule Cons.IH)
  then obtain zs where "dict_keys (match_group_loop okta clickup gm') = dict_keys gm' @ zs \<and>
        subseq zs (dict_keys okta)" ..
  then have z1: "dict_keys (match_group_loop okta clickup gm') = dict_keys gm' @ zs"
    and z2: "subseq zs (dict_keys okta)"
    by simp_all
  have "subseq (h @ zs) (g # dict_keys okta)"
    using z2 by (simp add: h_def list_emb_Cons)
  then have "dict_keys (match_group_loop (item # okta) clickup gm) = dict_keys gm @ (h @ zs) \<and>
      subseq (h @ zs) (dict_keys (item # okta))"
    using z1 k by (simp add: item gm'_def dict_keys_def)
  then show ?case ..
qed

lemma subseq_match_users: "subseq (dict_keys (match_users cfg f)) (dict_keys (get_okta_groups cfg f))"
  using keys_match_group_loop_subseq [of "get_okta_groups cfg f" "get_clickup_users f" "[]"]
  by (auto simp: match_users_def dict_keys_def)

subsection \<open>The order of the ClickUp groups\<close>

lemma update_loop_absent:
  "n \<notin> set (dict_keys items) \<Longrightarrow> update_loop cfg send n ms items s = s"
proof (induction items)
  case Nil
  show ?case by simp
next
  case (Cons item items)
  obtain cg p where item: "item = (cg, p)" by (cases item)
  from Cons.prems have "n \<noteq> cg" and "n \<notin> set (dict_keys items)"
    by (auto simp: item dict_keys_def)
  then show ?case
    by (simp add: item Cons.IH)
qed

lemma update_loop_distinct:
  "distinct (dict_keys items) \<Longrightarrow> raised s = None \<Longrightarrow>
   update_loop cfg send n ms items s =
     (case map_of items n of None \<Rightarrow> s | Some p \<Rightarrow> update_step cfg send ms n p s)"
proof (induction items)
  case Nil
  show ?case by simp
next
  case (Cons item items)
  obtain cg p where item: "item = (cg, p)" by (cases item)
  from Cons.prems have d: "distinct (dict_keys items)" and a: "cg \<notin> set (dict_keys items)"
    by (auto simp: item dict_keys_def)
  show ?case
  proof (cases "n = cg")
    case True
    with a show ?thesis
      by (simp add: item update_loop_absent Let_def)
  next
    case False
    with Cons.prems(2) Cons.IH [OF d Cons.prems(2)] show ?thesis
      by (simp add: item)
  qed
qed

lemma sync_groups_loop_order:
  assumes "distinct (dict_keys cgs)" and "distinct (dict_keys cgs')" and "set cgs = set cgs'"
  shows "sync_groups_loop cfg send cgs ogs s = sync_groups_loop cfg send cgs' ogs s"
proof (induction ogs arbitrary: s)
  case Nil
  show ?case by simp
next
  case (Cons item ogs)
  obtain n ms where item: "item = (n, ms)" by (cases item)
  have m: "map_of cgs = map_of cgs'"
    using assms by (simp add: dict_keys_def map_of_inject_set)
  have k: "set (dict_keys cgs) = set (dict_keys cgs')"
    using assms(3) by (simp add: dict_keys_def)
  have c: "create_step cfg send cgs n ms s = create_step cfg send cgs' n ms s"
    by (simp add: create_step_def k)
  define s1 where "s1 = create_step cfg send cgs' n ms s"
  show ?case
  proof (cases "raised s1 = None")
    case False
    then show ?thesis
      by (simp add: item c s1_def [symmetric])
  next
    case True
    then have "update_loop cfg send n ms cgs s1 = update_loop cfg send n ms cgs' s1"
      using assms(1,2) by (simp add: update_loop_distinct m)
    with True show ?thesis
      by (simp add: item c s1_def [symmetric] Cons.IH Let_def)
  qed
qed

lemma snapshot_live_run:
  "sync_groups live snapshot answering 0 =
     \<lparr>world = 2,
      trace =
        [Log_intent (CreateGroup ''eng-b'' [1, 2, 3]),
         Log_response (CreateGroup ''eng-b'' [1, 2, 3]) \<lparr>status_code = 200, json_ok = True\<rparr>,
         Log_intent (UpdateGroup ''ga'' ''eng-a'' {3} {1}),
         Log_response (UpdateGroup ''ga'' ''eng-a'' {3} {1}) \<lparr>status_code = 200, json_ok = True\<rparr>],
      sent = [CreateGroup ''eng-b'' [1, 2, 3], UpdateGroup ''ga'' ''eng-a'' {3} {1}],
      raised = None\<rparr>"
  unfolding sync_groups_def snapshot_match snapshot_groups
  by (simp add: run_defs)

text \<open>
  C10. In every run at most one intent is announced, and at most one request issued,
  per group name, so never a CreateGroup and an UpdateGroup for the same name; a
  CreateGroup is announced only for a name that is not a key of the fetched ClickUp
  groups and an UpdateGroup only for a name that is; and a run that no exception cuts
  short announces a CreateGroup for every desired name that is not such a key.
\<close>

theorem one_intent_per_group:
  "distinct (map intent_name (emitted (trace (sync_groups cfg f send w)))) \<and>
   distinct (map intent_name (sent (sync_groups cfg f send w))) \<and>
   (\<forall>n ms. CreateGroup n ms \<in> set (emitted (trace (sync_groups cfg f send w)))
      \<longrightarrow> n \<notin> set (dict_keys (get_clickup_groups cfg f))) \<and>
   (\<forall>gid n add rem. UpdateGroup gid n add rem \<in> set (emitted (trace (sync_groups cfg f send w)))
      \<longrightarrow> n \<in> set (dict_keys (get_clickup_groups cfg f))) \<and>
   (raised (sync_groups cfg f send w) = None \<longrightarrow>
      (\<forall>n \<in> set (dict_keys (match_users cfg f)).
         n \<notin> set (dict_keys (get_clickup_groups cfg f)) \<longrightarrow>
         (\<exists>ms. CreateGroup n ms \<in> set (emitted (trace (sync_groups cfg f send w))))))"
proof -
  define ogs where "ogs = match_users cfg f"
  define cgs where "cgs = get_clickup_groups cfg f"
  define r where "r = sync_groups_loop cfg send cgs ogs (start w)"
  have run: "sync_groups cfg f send w = r"
    by (simp add: sync_groups_def r_def ogs_def cgs_def)
  have d1: "distinct (dict_keys ogs)"
    unfolding ogs_def by (rule distinct_match_users)
  have d2: "distinct (dict_keys cgs)"
    unfolding cgs_def by (rule distinct_get_clickup_groups)
  have e: "distinct (map intent_name (emitted (trace r)))"
    unfolding r_def using d1 d2 by (rule distinct_names_emitted)
  have s: "distinct (map intent_name (sent r))"
    using e by (simp add: r_def sent_emitted)
  have sub: "set (emitted (trace r)) \<subseteq> set (diff ogs cgs)"
    unfolding r_def by (rule emitted_subset_diff)
  have c: "n \<notin> set (dict_keys cgs)" if "CreateGroup n ms \<in> set (emitted (trace r))" for n ms
  proof -
    from that sub have "CreateGroup n ms \<in> set (diff ogs cgs)" by (rule subsetD [rotated])
    then show ?thesis by (simp add: CreateGroup_in_diff)
  qed
  have u: "n \<in> set (dict_keys cgs)"
    if "UpdateGroup gid n add rem \<in> set (emitted (trace r))" for gid n add rem
  proof -
    from that sub have "UpdateGroup gid n add rem \<in> set (diff ogs cgs)"
      by (rule subsetD [rotated])
    then show ?thesis
      by (auto simp: UpdateGroup_in_diff dict_keys_def rev_image_eqI)
  qed
  have all: "\<exists>ms. CreateGroup n ms \<in> set (emitted (trace r))"
    if "raised r = None" and "n \<in> set (dict_keys ogs)" and "n \<notin> set (dict_keys cgs)" for n
  proof -
    from that(1) have "emitted (trace r) = diff ogs cgs"
      unfolding r_def by (rule emitted_complete)
    moreover from that(2) obtain ms where "(n, ms) \<in> set ogs"
      by (auto simp: dict_keys_def)
    ultimately have "CreateGroup n ms \<in> set (emitted (trace r))"
      using that(3) by (simp add: CreateGroup_in_diff)
    then show ?thesis ..
  qed
  show ?thesis
    unfolding run ogs_def [symmetric] cgs_def [symmetric]
    using e s c u all by (intro conjI allI impI ballI) 
qed

theorem one_intent_per_group_witness:
  "emitted (trace (sync_groups live snapshot answering 0)) =
     [CreateGroup ''eng-b'' [1, 2, 3], UpdateGroup ''ga'' ''eng-a'' {3} {1}] \<and>
   distinct (map intent_name (emitted (trace (sync_groups live snapshot answering 0)))) \<and>
   ''eng-b'' \<notin> set (dict_keys (get_clickup_groups live snapshot)) \<and>
   ''eng-a'' \<in> set (dict_keys (get_clickup_groups live snapshot))"
proof -
  note t = one_intent_per_group [of live snapshot answering 0]
  have e: "emitted (trace (sync_groups live snapshot answering 0)) =
     [CreateGroup ''eng-b'' [1, 2, 3], UpdateGroup ''ga'' ''eng-a'' {3} {1}]"
    by (simp add: snapshot_live_run)
  have c: "CreateGroup ''eng-b'' [1, 2, 3]
      \<in> set (emitted (trace (sync_groups live snapshot answering 0)))"
    by (simp add: e)
  have u: "UpdateGroup ''ga'' ''eng-a'' {3} {1}
      \<in> set (emitted (trace (sync_groups live snapshot answering 0)))"
    by (simp add: e)
  from t have "distinct (map intent_name (emitted (trace (sync_groups live snapshot answering 0))))"
    by (rule conjunct1)
  moreover have "''eng-b'' \<notin> set (dict_keys (get_clickup_groups live snapshot))"
    by (rule t [THEN conjunct2, THEN conjunct2, THEN conjunct1, rule_format, OF c])
  moreover have "''eng-a'' \<in> set (dict_keys (get_clickup_groups live snapshot))"
    by (rule t [THEN conjunct2, THEN conjunct2, THEN conjunct2, THEN conjunct1, rule_format,
        OF u])
  ultimately show ?thesis
    using e by (intro conjI)
qed

text \<open>
  C8, as the script has it. The claim that the intents come in ascending order of the
  group names fails: the script sorts nothing, and the main loop follows the insertion
  order of the matched Okta groups. In the example data Okta lists \<open>eng-b\<close> before
  \<open>eng-a\<close>, and so do the intents.
\<close>

theorem intents_not_sorted_by_name:
  "map intent_name (emitted (trace (sync_groups live snapshot answering 0)))
     = [''eng-b'', ''eng-a''] \<and>
   \<not> sorted (map intent_name (emitted (trace (sync_groups live snapshot answering 0))))"
  by (simp add: snapshot_live_run)

text \<open>
  C8, amended. The intents of a run come in the insertion order of the source-group
  mapping: their names, in the order announced, are a subsequence of the names of the
  fetched Okta groups in insertion order (not sorted by name). The insertion order of
  the target-group mapping has no influence: two such mappings with the same entries
  give the same run.
\<close>

theorem intents_in_source_order:
  "subseq (map intent_name (emitted (trace (sync_groups cfg f send w))))
     (dict_keys (get_okta_groups cfg f)) \<and>
   (distinct (dict_keys existing) \<and> distinct (dict_keys existing') \<and>
    set existing = set existing' \<longrightarrow>
      sync_groups_loop cfg send existing desired (start w) =
      sync_groups_loop cfg send existing' desired (start w))"
proof
  have "subseq (map intent_name (emitted (trace (sync_groups cfg f send w))))
      (map intent_name (diff (match_users cfg f) (get_clickup_groups cfg f)))"
    unfolding sync_groups_def Let_def
    by (rule prefix_imp_subseq) (rule names_emitted_prefix)
  also have "subseq \<dots> (dict_keys (match_users cfg f))"
    using distinct_get_clickup_groups by (rule subseq_names_diff)
  also have "subseq \<dots> (dict_keys (get_okta_groups cfg f))"
    by (rule subseq_match_users)
  finally show "subseq (map intent_name (emitted (trace (sync_groups cfg f send w))))
      (dict_keys (get_okta_groups cfg f))" .
next
  show "distinct (dict_keys existing) \<and> distinct (dict_keys existing') \<and>
    set existing = set existing' \<longrightarrow>
      sync_groups_loop cfg send existing desired (start w) =
      sync_groups_loop cfg send existing' desired (start w)"
    by (auto intro: sync_groups_loop_order)
qed

theorem intents_in_source_order_witness:
  "map intent_name (emitted (trace (sync_groups live snapshot answering 0)))
     = [''eng-b'', ''eng-a''] \<and>
   dict_keys (get_okta_groups live snapshot) = [''eng-b'', ''eng-a'', ''eng-c''] \<and>
   subseq (map intent_name (emitted (trace (sync_groups live snapshot answering 0))))
     (dict_keys (get_okta_groups live snapshot)) \<and>
   distinct (dict_keys [(''eng-a'', \<lparr>id' = ''ga'', members = [1, 2]\<rparr>),
                        (''eng-old'', \<lparr>id' = ''go'', members = [5]\<rparr>)]) \<and>
   distinct (dict_keys [(''eng-old'', \<lparr>id' = ''go'', members = [5]\<rparr>),
                        (''eng-a'', \<lparr>id' = ''ga'', members = [1, 2]\<rparr>)]) \<and>
   sync_groups_loop live answering
     [(''eng-a'', \<lparr>id' = ''ga'', members = [1, 2]\<rparr>),
      (''eng-old'', \<lparr>id' = ''go'', members = [5]\<rparr>)] [(''eng-a'', [2, 3])] (start 0) =
   sync_groups_loop live answering
     [(''eng-old'', \<lparr>id' = ''go'', members = [5]\<rparr>),
      (''eng-a'', \<lparr>id' = ''ga'', members = [1, 2]\<rparr>)] [(''eng-a'', [2, 3])] (start 0)"
proof -
  let ?e = "[(''eng-a'', \<lparr>id' = ''ga'', members = [1, 2]\<rparr>),
             (''eng-old'', \<lparr>id' = ''go'', members = [5]\<rparr>)]"
  let ?e' = "[(''eng-old'', \<lparr>id' = ''go'', members = [5]\<rparr>),
              (''eng-a'', \<lparr>id' = ''ga'', members = [1, 2]\<rparr>)]"
  note t = intents_in_source_order [of live snapshot answering 0 ?e ?e' "[(''eng-a'', [2, 3])]"]
  have n: "map intent_name (emitted (trace (sync_groups live snapshot answering 0)))
     = [''eng-b'', ''eng-a'']"
    by (simp add: snapshot_live_run)
  have k: "dict_keys (get_okta_groups live snapshot) = [''eng-b'', ''eng-a'', ''eng-c'']"
    by (simp add: snapshot_okta dict_keys_def)
  have h1: "distinct (dict_keys ?e)" by (simp add: dict_keys_def)
  have h2: "distinct (dict_keys ?e')" by (simp add: dict_keys_def)
  have h3: "set ?e = set ?e'" by auto
  from h1 h2 h3 have h: "distinct (dict_keys ?e) \<and> distinct (dict_keys ?e') \<and> set ?e = set ?e'"
    by (intro conjI)
  show ?thesis
    by (intro conjI n k t [THEN conjunct1] h1 h2 t [THEN conjunct2, THEN mp, OF h])
qed

subsection \<open>Answers and exceptions\<close>

lemma after_append: "after send w (ys @ zs) = after send (after send w ys) zs"
  by (induction ys arbitrary: w) simp_all

lemma replies_append:
  assumes "\<forall>w i. \<exists>w' r. send w i = (w', Inr r) \<and> (DEBUG cfg \<longrightarrow> json_ok r)"
  shows "replies send w (ys @ zs) = replies send w ys @ replies send (after send w ys) zs"
proof (induction ys arbitrary: w)
  case Nil
  show ?case by simp
next
  case (Cons i ys)
  from assms have "\<exists>w' r. send w i = (w', Inr r) \<and> (DEBUG cfg \<longrightarrow> json_ok r)"
    by simp
  then obtain w' where "\<exists>r. send w i = (w', Inr r) \<and> (DEBUG cfg \<longrightarrow> json_ok r)" ..
  then obtain r where "send w i = (w', Inr r) \<and> (DEBUG cfg \<longrightarrow> json_ok r)" ..
  then have "send w i = (w', Inr r)" by simp
  then show ?case
    by (simp add: Cons.IH)
qed

lemma map_fst_replies:
  assumes "\<forall>w i. \<exists>w' r. send w i = (w', Inr r) \<and> (DEBUG cfg \<longrightarrow> json_ok r)"
  shows "map fst (replies send w ys) = ys"
proof (induction ys arbitrary: w)
  case Nil
  show ?case by simp
next
  case (Cons i ys)
  from assms have "\<exists>w' r. send w i = (w', Inr r) \<and> (DEBUG cfg \<longrightarrow> json_ok r)"
    by simp
  then obtain w' where "\<exists>r. send w i = (w', Inr r) \<and> (DEBUG cfg \<longrightarrow> json_ok r)" ..
  then obtain r where "send w i = (w', Inr r) \<and> (DEBUG cfg \<longrightarrow> json_ok r)" ..
  then have "send w i = (w', Inr r)" by simp
  then show ?case
    by (simp add: Cons.IH)
qed

lemma proceeds_refl: "raised s = None \<Longrightarrow> proceeds send s s []"
  by (simp add: proceeds_def)

lemma proceeds_trans:
  assumes "\<forall>w i. \<exists>w' r. send w i = (w', Inr r) \<and> (DEBUG cfg \<longrightarrow> json_ok r)"
  shows "proceeds send s r ys \<Longrightarrow> proceeds send r t zs \<Longrightarrow> proceeds send s t (ys @ zs)"
  by (simp add: proceeds_def replies_append [OF assms] after_append)

lemma proceeds_log_intent:
  "raised s = None \<Longrightarrow> proceeds send s (log_event (Log_intent i) s) []"
  by (simp add: proceeds_def log_event_def answered_append)

lemma proceeds_log_no_changes:
  "raised s = None \<Longrightarrow> proceeds send s (log_event (Log_no_changes n) s) []"
  by (simp add: proceeds_def log_event_def answered_append)

lemma proceeds_perform:
  assumes "\<not> DRY_RUN cfg"
    and "\<forall>w i. \<exists>w' r. send w i = (w', Inr r) \<and> (DEBUG cfg \<longrightarrow> json_ok r)"
    and "raised s = None"
  shows "proceeds send s (perform cfg send i s) [i]"
proof -
  from assms(2) have "\<exists>w' r. send (world s) i = (w', Inr r) \<and> (DEBUG cfg \<longrightarrow> json_ok r)"
    by simp
  then obtain w' where "\<exists>r. send (world s) i = (w', Inr r) \<and> (DEBUG cfg \<longrightarrow> json_ok r)" ..
  then obtain r where r: "send (world s) i = (w', Inr r) \<and> (DEBUG cfg \<longrightarrow> json_ok r)" ..
  then have "send (world s) i = (w', Inr r)" and "DEBUG cfg \<longrightarrow> json_ok r"
    by simp_all
  with assms(1,3) show ?thesis
    by (simp add: proceeds_def perform_def log_response_def log_event_def answered_append
        Let_def)
qed

lemma proceeds_create_step:
  assumes "\<not> DRY_RUN cfg"
    and "\<forall>w i. \<exists>w' r. send w i = (w', Inr r) \<and> (DEBUG cfg \<longrightarrow> json_ok r)"
    and "raised s = None"
  shows "proceeds send s (create_step cfg send cgs n ms s)
           (if n \<notin> set (dict_keys cgs) then [CreateGroup n ms] else [])"
proof (cases "n \<in> set (dict_keys cgs)")
  case True
  with assms(3) show ?thesis
    by (simp add: create_step_def proceeds_refl)
next
  case False
  define s' where "s' = log_event (Log_intent (CreateGroup n ms)) s"
  have a: "proceeds send s s' []"
    unfolding s'_def using assms(3) by (rule proceeds_log_intent)
  then have "raised s' = None"
    by (simp add: proceeds_def)
  with assms(1,2) have "proceeds send s' (perform cfg send (CreateGroup n ms) s')
      [CreateGroup n ms]"
    by (rule proceeds_perform)
  with a have "proceeds send s (perform cfg send (CreateGroup n ms) s')
      ([] @ [CreateGroup n ms])"
    by (rule proceeds_trans [OF assms(2)])
  with False show ?thesis
    by (simp add: create_step_def s'_def)
qed

lemma proceeds_update_step:
  assumes "\<not> DRY_RUN cfg"
    and "\<forall>w i. \<exists>w' r. send w i = (w', Inr r) \<and> (DEBUG cfg \<longrightarrow> json_ok r)"
    and "raised s = None"
  shows "proceeds send s (update_step cfg send ms n p s) (update_intents n ms (n, p))"
proof (cases "set ms - set (members p) \<noteq> {} \<or> set (members p) - set ms \<noteq> {}")
  case False
  with assms(3) show ?thesis
    by (simp add: update_step_def update_intents_def proceeds_log_no_changes)
next
  case True
  define i where "i = UpdateGroup (id' p) n (set ms - set (members p)) (set (members p) - set ms)"
  define s' where "s' = log_event (Log_intent i) s"
  have a: "proceeds send s s' []"
    unfolding s'_def using assms(3) by (rule proceeds_log_intent)
  then have "raised s' = None"
    by (simp add: proceeds_def)
  with assms(1,2) have "proceeds send s' (perform cfg send i s') [i]"
    by (rule proceeds_perform)
  with a have "proceeds send s (perform cfg send i s') ([] @ [i])"
    by (rule proceeds_trans [OF assms(2)])
  with True show ?thesis
    by (simp add: update_step_def update_intents_def s'_def i_def Let_def)
qed

lemma proceeds_update_loop:
  assumes "\<not> DRY_RUN cfg"
    and "\<forall>w i. \<exists>w' r. send w i = (w', Inr r) \<and> (DEBUG cfg \<longrightarrow> json_ok r)"
  shows "raised s = None \<Longrightarrow>
     proceeds send s (update_loop cfg send n ms items s)
       (concat (map (update_intents n ms) items))"
proof (induction items arbitrary: s)
  case Nil
  then show ?case by (simp add: proceeds_refl)
next
  case (Cons item items)
  obtain cg p where item: "item = (cg, p)" by (cases item)
  define s' where "s' = (if n = cg then update_step cfg send ms cg p s else s)"
  have head: "proceeds send s s' (update_intents n ms item)"
  proof (cases "n = cg")
    case True
    with proceeds_update_step [OF assms Cons.prems, of ms n p] show ?thesis
      by (simp add: s'_def item)
  next
    case False
    with Cons.prems show ?thesis
      by (simp add: s'_def item update_intents_other proceeds_refl)
  qed
  then have r: "raised s' = None"
    by (simp add: proceeds_def)
  then have "proceeds send s' (update_loop cfg send n ms items s')
      (concat (map (update_intents n ms) items))"
    by (rule Cons.IH)
  with head have "proceeds send s (update_loop cfg send n ms items s')
      (update_intents n ms item @ concat (map (update_intents n ms) items))"
    by (rule proceeds_trans [OF assms(2)])
  moreover have "update_loop cfg send n ms (item # items) s = update_loop cfg send n ms items s'"
    using r by (simp add: item s'_def Let_def)
  ultimately show ?case by simp
qed

lemma proceeds_sync_groups_loop:
  assumes "\<not> DRY_RUN cfg"
    and "\<forall>w i. \<exists>w' r. send w i = (w', Inr r) \<and> (DEBUG cfg \<longrightarrow> json_ok r)"
  shows "raised s = None \<Longrightarrow>
     proceeds send s (sync_groups_loop cfg send cgs ogs s) (diff ogs cgs)"
proof (induction ogs arbitrary: s)
  case Nil
  then show ?case by (simp add: proceeds_refl diff_def)
next
  case (Cons item ogs)
  obtain n ms where item: "item = (n, ms)" by (cases item)
  define c where "c = (if n \<notin> set (dict_keys cgs) then [CreateGroup n ms] else [])"
  define u where "u = concat (map (update_intents n ms) cgs)"
  define s1 where "s1 = create_step cfg send cgs n ms s"
  define s2 where "s2 = update_loop cfg send n ms cgs s1"
  have d: "diff (item # ogs) cgs = c @ u @ diff ogs cgs"
    by (simp add: diff_def group_intents_def item c_def u_def)
  have p1: "proceeds send s s1 c"
    unfolding s1_def c_def using assms Cons.prems by (rule proceeds_create_step)
  then have r1: "raised s1 = None"
    by (simp add: proceeds_def)
  then have p2: "proceeds send s1 s2 u"
    unfolding s2_def u_def by (rule proceeds_update_loop [OF assms])
  then have r2: "raised s2 = None"
    by (simp add: proceeds_def)
  then have "proceeds send s2 (sync_groups_loop cfg send cgs ogs s2) (diff ogs cgs)"
    by (rule Cons.IH)
  with p2 have "proceeds send s1 (sync_groups_loop cfg send cgs ogs s2) (u @ diff ogs cgs)"
    by (rule proceeds_trans [OF assms(2)])
  with p1 have "proceeds send s (sync_groups_loop cfg send cgs ogs s2) (c @ u @ diff ogs cgs)"
    by (rule proceeds_trans [OF assms(2)])
  moreover have "sync_groups_loop cfg send cgs (item # ogs) s
      = sync_groups_loop cfg send cgs ogs s2"
    using r1 r2 by (simp add: item s1_def s2_def Let_def)
  ultimately show ?case by (simp add: d)
qed

lemma snapshot_failing_run:
  "sync_groups live snapshot failing 0 =
     \<lparr>world = 1,
      trace = [Log_intent (CreateGroup ''eng-b'' [1, 2, 3])],
      sent = [CreateGroup ''eng-b'' [1, 2, 3]],
      raised = Some RequestException\<rparr>"
  unfolding sync_groups_def snapshot_match snapshot_groups
  by (simp add: run_defs)

lemma snapshot_refusing_run:
  "sync_groups live snapshot refusing 0 =
     \<lparr>world = 2,
      trace =
        [Log_intent (CreateGroup ''eng-b'' [1, 2, 3]),
         Log_response (CreateGroup ''eng-b'' [1, 2, 3]) \<lparr>status_code = 500, json_ok = True\<rparr>,
         Log_intent (UpdateGroup ''ga'' ''eng-a'' {3} {1}),
         Log_response (UpdateGroup ''ga'' ''eng-a'' {3} {1}) \<lparr>status_code = 500, json_ok = True\<rparr>],
      sent = [CreateGroup ''eng-b'' [1, 2, 3], UpdateGroup ''ga'' ''eng-a'' {3} {1}],
      raised = None\<rparr>"
  unfolding sync_groups_def snapshot_match snapshot_groups
  by (simp add: run_defs refusing_def)

lemma snapshot_diff:
  "diff (match_users live snapshot) (get_clickup_groups live snapshot) =
     [CreateGroup ''eng-b'' [1, 2, 3], UpdateGroup ''ga'' ''eng-a'' {3} {1}]"
  unfolding snapshot_match snapshot_groups
  by (simp add: diff_def group_intents_def update_intents_def dict_keys_def Let_def
      insert_Diff_if)

text \<open>
  C9, as the script has it. The claim that a failure applying one intent does not abort
  the processing of the subsequent intents, and that every outcome is collected and
  returned, fails: nothing in the script catches an exception, and \<open>sync_groups\<close>
  returns nothing. In the example data the plan has two intents; when the first request
  raises, the run ends there with one request issued, the update of \<open>eng-a\<close> is
  neither announced nor sent, and the caller gets the exception.
\<close>

theorem exception_aborts_run:
  "diff (match_users live snapshot) (get_clickup_groups live snapshot) =
     [CreateGroup ''eng-b'' [1, 2, 3], UpdateGroup ''ga'' ''eng-a'' {3} {1}] \<and>
   sent (sync_groups live snapshot failing 0) = [CreateGroup ''eng-b'' [1, 2, 3]] \<and>
   emitted (trace (sync_groups live snapshot failing 0)) = [CreateGroup ''eng-b'' [1, 2, 3]] \<and>
   answered (trace (sync_groups live snapshot failing 0)) = [] \<and>
   world (sync_groups live snapshot failing 0) = 1 \<and>
   raised (sync_groups live snapshot failing 0) = Some RequestException \<and>
   returned (sync_groups live snapshot failing 0) = Raises RequestException"
  by (simp add: snapshot_failing_run snapshot_diff returned_def)

text \<open>
  C9, amended. When the run is not a dry run the intents are applied one after another:
  the requests issued are always an initial part of the planned intents, in order. When
  the target system answers every request, with whatever status code, failures
  included (and, with \<open>DEBUG\<close> on, with a body that parses as JSON), no application
  aborts the run: every planned intent is sent, and the log holds, in the order of the
  plan, each intent with the very answer the target system gave to it. These outcomes
  are written to the log only: the call returns \<open>None\<close> to the caller.
\<close>

theorem answered_failure_does_not_abort:
  "prefix (sent (sync_groups cfg f send w))
     (diff (match_users cfg f) (get_clickup_groups cfg f)) \<and>
   (\<not> DRY_RUN cfg \<and>
    (\<forall>w i. \<exists>w' r. send w i = (w', Inr r) \<and> (DEBUG cfg \<longrightarrow> json_ok r)) \<longrightarrow>
      raised (sync_groups cfg f send w) = None \<and>
      sent (sync_groups cfg f send w) = diff (match_users cfg f) (get_clickup_groups cfg f) \<and>
      map fst (answered (trace (sync_groups cfg f send w))) =
        diff (match_users cfg f) (get_clickup_groups cfg f) \<and>
      answered (trace (sync_groups cfg f send w)) =
        replies send w (diff (match_users cfg f) (get_clickup_groups cfg f)) \<and>
      world (sync_groups cfg f send w) =
        after send w (diff (match_users cfg f) (get_clickup_groups cfg f)) \<and>
      returned (sync_groups cfg f send w) = Returns_None)"
proof (intro conjI impI)
  define ogs where "ogs = match_users cfg f"
  define cgs where "cgs = get_clickup_groups cfg f"
  have run: "sync_groups cfg f send w = sync_groups_loop cfg send cgs ogs (start w)"
    by (simp add: sync_groups_def ogs_def cgs_def)
  show "prefix (sent (sync_groups cfg f send w))
     (diff (match_users cfg f) (get_clickup_groups cfg f))"
    unfolding run ogs_def [symmetric] cgs_def [symmetric]
    by (simp add: sent_emitted emitted_prefix_diff)
  assume h: "\<not> DRY_RUN cfg \<and>
    (\<forall>w i. \<exists>w' r. send w i = (w', Inr r) \<and> (DEBUG cfg \<longrightarrow> json_ok r))"
  then have h1: "\<not> DRY_RUN cfg"
    and h2: "\<forall>w i. \<exists>w' r. send w i = (w', Inr r) \<and> (DEBUG cfg \<longrightarrow> json_ok r)"
    by simp_all
  have "raised (start w) = None"
    by (simp add: start_def)
  then have p: "proceeds send (start w) (sync_groups_loop cfg send cgs ogs (start w))
      (diff ogs cgs)"
    by (rule proceeds_sync_groups_loop [OF h1 h2])
  then have r: "raised (sync_groups_loop cfg send cgs ogs (start w)) = None"
    by (simp add: proceeds_def)
  from p have a: "answered (trace (sync_groups_loop cfg send cgs ogs (start w)))
      = replies send w (diff ogs cgs)"
    by (simp add: proceeds_def start_def)
  show "raised (sync_groups cfg f send w) = None"
    unfolding run by (rule r)
  show "sent (sync_groups cfg f send w) = diff (match_users cfg f) (get_clickup_groups cfg f)"
    unfolding run ogs_def [symmetric] cgs_def [symmetric]
    using h1 r by (simp add: sent_emitted emitted_complete)
  show "map fst (answered (trace (sync_groups cfg f send w))) =
        diff (match_users cfg f) (get_clickup_groups cfg f)"
    unfolding run ogs_def [symmetric] cgs_def [symmetric] a
    by (rule map_fst_replies [OF h2])
  show "answered (trace (sync_groups cfg f send w)) =
        replies send w (diff (match_users cfg f) (get_clickup_groups cfg f))"
    unfolding run ogs_def [symmetric] cgs_def [symmetric] by (rule a)
  show "world (sync_groups cfg f send w) =
        after send w (diff (match_users cfg f) (get_clickup_groups cfg f))"
    unfolding run ogs_def [symmetric] cgs_def [symmetric]
    using p by (simp add: proceeds_def start_def)
  show "returned (sync_groups cfg f send w) = Returns_None"
    unfolding run using r by (simp add: returned_def)
qed

theorem answered_failure_does_not_abort_witness:
  "\<not> DRY_RUN live \<and>
   refusing 0 (CreateGroup ''eng-b'' [1, 2, 3]) = (1, Inr \<lparr>status_code = 500, json_ok = True\<rparr>) \<and>
   raised (sync_groups live snapshot refusing 0) = None \<and>
   sent (sync_groups live snapshot refusing 0) =
     [CreateGroup ''eng-b'' [1, 2, 3], UpdateGroup ''ga'' ''eng-a'' {3} {1}] \<and>
   answered (trace (sync_groups live snapshot refusing 0)) =
     [(CreateGroup ''eng-b'' [1, 2, 3], \<lparr>status_code = 500, json_ok = True\<rparr>),
      (UpdateGroup ''ga'' ''eng-a'' {3} {1}, \<lparr>status_code = 500, json_ok = True\<rparr>)] \<and>
   world (sync_groups live snapshot refusing 0) = 2 \<and>
   returned (sync_groups live snapshot refusing 0) = Returns_None"
proof -
  have h1: "\<not> DRY_RUN live"
    by (simp add: live_def)
  have h2: "\<forall>w i. \<exists>w' r. refusing w i = (w', Inr r) \<and> (DEBUG live \<longrightarrow> json_ok r)"
    by (simp add: refusing_def)
  from h1 h2 have h: "\<not> DRY_RUN live \<and>
      (\<forall>w i. \<exists>w' r. refusing w i = (w', Inr r) \<and> (DEBUG live \<longrightarrow> json_ok r))" ..
  note t = answered_failure_does_not_abort [of live snapshot refusing 0,
      THEN conjunct2, THEN mp, OF h]
  have r: "raised (sync_groups live snapshot refusing 0) = None"
    by (rule t [THEN conjunct1])
  have s: "sent (sync_groups live snapshot refusing 0) =
     [CreateGroup ''eng-b'' [1, 2, 3], UpdateGroup ''ga'' ''eng-a'' {3} {1}]"
    using t [THEN conjunct2, THEN conjunct1] by (simp add: snapshot_diff)
  have f: "refusing 0 (CreateGroup ''eng-b'' [1, 2, 3])
      = (1, Inr \<lparr>status_code = 500, json_ok = True\<rparr>)"
    by (simp add: refusing_def)
  have a: "answered (trace (sync_groups live snapshot refusing 0)) =
     [(CreateGroup ''eng-b'' [1, 2, 3], \<lparr>status_code = 500, json_ok = True\<rparr>),
      (UpdateGroup ''ga'' ''eng-a'' {3} {1}, \<lparr>status_code = 500, json_ok = True\<rparr>)]"
    using t [THEN conjunct2, THEN conjunct2, THEN conjunct2, THEN conjunct1]
    by (simp add: snapshot_diff refusing_def)
  have w: "world (sync_groups live snapshot refusing 0) = 2"
    using t [THEN conjunct2, THEN conjunct2, THEN conjunct2, THEN conjunct2, THEN conjunct1]
    by (simp add: snapshot_diff refusing_def)
  have v: "returned (sync_groups live snapshot refusing 0) = Returns_None"
    by (rule t [THEN conjunct2, THEN conjunct2, THEN conjunct2, THEN conjunct2,
        THEN conjunct2])
  show ?thesis
    by (intro conjI h1 f r s a w v)
qed

subsection \<open>Planning twice\<close>

lemma dict_keys_apply_update:
  "dict_keys (apply_intent fresh (UpdateGroup gid n add rem) e) = dict_keys e"
  by (induction e) (auto simp: dict_keys_def)

lemma distinct_apply_intent:
  "distinct (dict_keys e) \<Longrightarrow> distinct (dict_keys (apply_intent fresh i e))"
  by (cases i) (simp_all only: apply_intent.simps distinct_dict_set dict_keys_apply_update
      [unfolded apply_intent.simps])

lemma map_of_apply_update:
  "map_of (apply_intent fresh (UpdateGroup gid n add rem) e) k =
     map_option
       (\<lambda>p. if k = n \<and> id' p = gid
            then p\<lparr>members := filter (\<lambda>m. m \<notin> rem) (members p) @ sorted_list_of_set add\<rparr>
            else p)
       (map_of e k)"
  by (induction e) auto

lemma map_of_apply_other:
  "intent_name i \<noteq> k \<Longrightarrow> map_of (apply_intent fresh i e) k = map_of e k"
  by (cases i) (auto simp: map_of_dict_set map_of_apply_update map_option.identity
      simp del: apply_intent.simps(2) cong: map_option_cong)

lemma settled_iff:
  "distinct (dict_keys e) \<Longrightarrow> group_intents e item = [] \<longleftrightarrow> settled e item"
  by (cases item)
     (auto simp: group_intents_distinct update_intents_def settled_def Let_def
       split: option.splits)

lemma settled_cong:
  "map_of e (fst item) = map_of e' (fst item) \<Longrightarrow> settled e item = settled e' item"
  by (simp add: settled_def)

lemma apply_group_intents:
  assumes "distinct (dict_keys e)" and "map_of e1 n = map_of e n"
  shows "settled (fold (apply_intent fresh) (group_intents e (n, ms)) e1) (n, ms)"
proof (cases "map_of e n")
  case None
  with assms show ?thesis
    by (simp add: group_intents_distinct settled_def map_of_dict_set)
next
  case (Some p)
  show ?thesis
  proof (cases "set ms - set (members p) \<noteq> {} \<or> set (members p) - set ms \<noteq> {}")
    case False
    then have "set (members p) = set ms" by auto
    with assms Some False show ?thesis
      by (simp add: group_intents_distinct update_intents_def settled_def)
  next
    case True
    have "set (filter (\<lambda>m. m \<notin> set (members p) - set ms) (members p)
        @ sorted_list_of_set (set ms - set (members p))) = set ms"
      by auto
    with assms Some True show ?thesis
      by (simp add: group_intents_distinct update_intents_def settled_def map_of_apply_update
          del: apply_intent.simps(2))
  qed
qed

lemma fold_apply_other:
  "\<forall>i \<in> set is. intent_name i \<noteq> k \<Longrightarrow> map_of (fold (apply_intent fresh) is e) k = map_of e k"
  by (induction "is" arbitrary: e) (simp_all add: map_of_apply_other)

lemma fold_apply_distinct:
  "distinct (dict_keys e) \<Longrightarrow> distinct (dict_keys (fold (apply_intent fresh) is e))"
  by (induction "is" arbitrary: e) (simp_all add: distinct_apply_intent)

lemma diff_Cons: "diff (item # ogs) cgs = group_intents cgs item @ diff ogs cgs"
  by (simp add: diff_def)

lemma names_in_diff:
  "i \<in> set (diff ogs cgs) \<Longrightarrow> intent_name i \<in> set (dict_keys ogs)"
  by (auto simp: diff_iff intent_name_group_intents dict_keys_def rev_image_eqI)

lemma apply_diff:
  assumes "distinct (dict_keys e)"
  shows "distinct (dict_keys d) \<Longrightarrow> \<forall>n \<in> set (dict_keys d). map_of e1 n = map_of e n \<Longrightarrow>
     \<forall>item \<in> set d. settled (fold (apply_intent fresh) (diff d e) e1) item"
proof (induction d arbitrary: e1)
  case Nil
  show ?case by simp
next
  case (Cons item d)
  obtain n ms where item: "item = (n, ms)" by (cases item)
  define e2 where "e2 = fold (apply_intent fresh) (group_intents e (n, ms)) e1"
  define e3 where "e3 = fold (apply_intent fresh) (diff d e) e2"
  have all: "fold (apply_intent fresh) (diff (item # d) e) e1 = e3"
    by (simp add: diff_Cons item e2_def e3_def)
  from Cons.prems(1) have dd: "distinct (dict_keys d)" and nd: "n \<notin> set (dict_keys d)"
    by (simp_all add: item dict_keys_def)
  from Cons.prems(2) have n1: "map_of e1 n = map_of e n"
    by (simp add: item dict_keys_def)
  have s2: "settled e2 (n, ms)"
    unfolding e2_def using assms n1 by (rule apply_group_intents)
  have keep: "map_of e2 k = map_of e1 k" if "k \<noteq> n" for k
    unfolding e2_def using that
    by (intro fold_apply_other) (auto dest: intent_name_group_intents)
  have "\<forall>k \<in> set (dict_keys d). map_of e2 k = map_of e k"
  proof
    fix k
    assume k: "k \<in> set (dict_keys d)"
    with nd have "k \<noteq> n" by auto
    then have "map_of e2 k = map_of e1 k" by (rule keep)
    also from k Cons.prems(2) have "\<dots> = map_of e k"
      by (auto simp: item dict_keys_def)
    finally show "map_of e2 k = map_of e k" .
  qed
  with dd have rest: "\<forall>item \<in> set d. settled e3 item"
    unfolding e3_def by (rule Cons.IH)
  have "map_of e3 n = map_of e2 n"
    unfolding e3_def using nd
    by (intro fold_apply_other) (auto dest: names_in_diff)
  then have "settled e3 (n, ms) = settled e2 (n, ms)"
    by (intro settled_cong) simp
  with s2 rest have "\<forall>x \<in> set (item # d). settled e3 x"
    by (simp add: item)
  then show ?case
    unfolding all .
qed

lemma diff_settled:
  "distinct (dict_keys e) \<Longrightarrow> \<forall>item \<in> set d. settled e item \<Longrightarrow> diff d e = []"
  by (simp add: diff_def settled_iff)

text \<open>
  C6. Planning is idempotent. Take a run that no exception cuts short, apply the intents
  it announced to the snapshot of the ClickUp groups (created groups are added with
  their members, each update adds and removes the ids it names), and run again against
  the updated snapshot, with whatever settings and target system: the second run
  announces no intent. Both mappings are dictionaries, so their keys are distinct.
\<close>

theorem plan_idempotent:
  assumes "distinct (dict_keys desired)" and "distinct (dict_keys existing)"
    and "raised (sync_groups_loop cfg send existing desired (start w)) = None"
  shows "emitted (trace (sync_groups_loop cfg' send'
           (apply_intents fresh
              (emitted (trace (sync_groups_loop cfg send existing desired (start w))))
              existing)
           desired (start w'))) = []"
proof -
  define existing' where "existing' = apply_intents fresh (diff desired existing) existing"
  have first: "emitted (trace (sync_groups_loop cfg send existing desired (start w)))
      = diff desired existing"
    using assms(3) by (rule emitted_complete)
  have "distinct (dict_keys existing')"
    unfolding existing'_def apply_intents_def using assms(2) by (rule fold_apply_distinct)
  moreover have "\<forall>item \<in> set desired. settled existing' item"
    unfolding existing'_def apply_intents_def
    using assms(2,1) by (rule apply_diff) simp
  ultimately have "diff desired existing' = []"
    by (rule diff_settled)
  moreover have "prefix (emitted (trace (sync_groups_loop cfg' send' existing' desired (start w'))))
      (diff desired existing')"
    by (rule emitted_prefix_diff)
  ultimately show ?thesis
    by (simp add: first existing'_def)
qed

theorem plan_idempotent_witness:
  "distinct (dict_keys [(''eng-b'', [1, 2, 3]), (''eng-a'', [2, 3 :: user_id])]) \<and>
   distinct (dict_keys [(''eng-a'', \<lparr>id' = ''ga'', members = [1, 2]\<rparr>)]) \<and>
   raised (sync_groups_loop live answering [(''eng-a'', \<lparr>id' = ''ga'', members = [1, 2]\<rparr>)]
     [(''eng-b'', [1, 2, 3]), (''eng-a'', [2, 3])] (start 0)) = None \<and>
   apply_intents (\<lambda>name. ''new-'' @ name)
     (emitted (trace (sync_groups_loop live answering
        [(''eng-a'', \<lparr>id' = ''ga'', members = [1, 2]\<rparr>)]
        [(''eng-b'', [1, 2, 3]), (''eng-a'', [2, 3])] (start 0))))
     [(''eng-a'', \<lparr>id' = ''ga'', members = [1, 2]\<rparr>)]
     = [(''eng-a'', \<lparr>id' = ''ga'', members = [2, 3]\<rparr>),
        (''eng-b'', \<lparr>id' = ''new-eng-b'', members = [1, 2, 3]\<rparr>)] \<and>
   emitted (trace (sync_groups_loop dry failing
     (apply_intents (\<lambda>name. ''new-'' @ name)
        (emitted (trace (sync_groups_loop live answering
           [(''eng-a'', \<lparr>id' = ''ga'', members = [1, 2]\<rparr>)]
           [(''eng-b'', [1, 2, 3]), (''eng-a'', [2, 3])] (start 0))))
        [(''eng-a'', \<lparr>id' = ''ga'', members = [1, 2]\<rparr>)])
     [(''eng-b'', [1, 2, 3]), (''eng-a'', [2, 3])] (start 0))) = []"
proof -
  let ?d = "[(''eng-b'', [1, 2, 3]), (''eng-a'', [2, 3 :: user_id])]"
  let ?e = "[(''eng-a'', \<lparr>id' = ''ga'', members = [1, 2]\<rparr>)]"
  have h1: "distinct (dict_keys ?d)" by (simp add: dict_keys_def)
  have h2: "distinct (dict_keys ?e)" by (simp add: dict_keys_def)
  have h3: "raised (sync_groups_loop live answering ?e ?d (start 0)) = None"
    by (simp add: run_defs)
  have a: "apply_intents (\<lambda>name. ''new-'' @ name)
      (emitted (trace (sync_groups_loop live answering ?e ?d (start 0)))) ?e
      = [(''eng-a'', \<lparr>id' = ''ga'', members = [2, 3]\<rparr>),
         (''eng-b'', \<lparr>id' = ''new-eng-b'', members = [1, 2, 3]\<rparr>)]"
    by (simp add: run_defs apply_intents_def)
  show ?thesis
    by (intro conjI h1 h2 h3 a plan_idempotent [OF h1 h2 h3])
qed

end
